theory Spec2Isabelle
  imports Main
begin

section \<open>The route parser of \<open>src/extension.ts\<close>\<close>

text \<open>
  The parser works on the text of a \<open>routes.ts\<close> file by character offsets. The text is a
  \<^typ>\<open>string\<close>, a list of characters read by index; \<open>text[i]\<close> of the source is
  \<open>text ! i\<close> under the loop guard \<open>i < length text\<close>, and \<open>char_at\<close> where the
  source reads without such a guard (JavaScript then yields \<open>undefined\<close>, here \<open>None\<close>).
  Offsets are natural numbers; the results \<open>-1\<close> and \<open>null\<close> of the source are \<open>None\<close>.
\<close>

subsection \<open>Characters\<close>

definition char_at :: "string \<Rightarrow> nat \<Rightarrow> char option" where
  "char_at text i = (if i < length text then Some (text ! i) else None)"

definition squote :: char where
  "squote = CHR 0x27"

definition dquote :: char where
  "dquote = CHR 0x22"

definition backslash :: char where
  "backslash = CHR 0x5C"

definition newline :: char where
  "newline = CHR 0x0A"

text \<open>The class \<open>\s\<close> of a JavaScript regular expression, on characters below 256.\<close>

definition is_space :: "char \<Rightarrow> bool" where
  "is_space c = (c \<in> set [CHR 0x09, CHR 0x0A, CHR 0x0B, CHR 0x0C, CHR 0x0D, CHR 0x20, CHR 0xA0])"

text \<open>The class \<open>\w\<close>: letters, digits and the underscore.\<close>

definition is_word :: "char \<Rightarrow> bool" where
  "is_word c = (let n = (of_char c :: nat) in
     (48 \<le> n \<and> n \<le> 57) \<or> (65 \<le> n \<and> n \<le> 90) \<or> n = 95 \<or> (97 \<le> n \<and> n \<le> 122))"

subsection \<open>extractStringArg\<close>

text \<open>The first loop: \<open>while (i < text.length && /[\s,]/.test(text[i])) i++\<close>.\<close>

function skip_space_comma :: "string \<Rightarrow> nat \<Rightarrow> nat" where
  "skip_space_comma text i =
     (if i < length text \<and> (is_space (text ! i) \<or> text ! i = CHR '','')
      then skip_space_comma text (i + 1) else i)"
  by pat_completeness auto
termination
  by (relation "measure (\<lambda>(text, i). length text - i)") auto

declare skip_space_comma.simps [simp del]

text \<open>
  The second loop reads the characters up to the closing quote into \<open>value\<close>; a backslash
  that is not the last character of the text takes the next character as it is.
\<close>

function read_quoted :: "string \<Rightarrow> char \<Rightarrow> nat \<Rightarrow> string \<Rightarrow> nat \<times> string" where
  "read_quoted text quote i val =
     (if i < length text \<and> text ! i \<noteq> quote
      then (if text ! i = backslash \<and> i + 1 < length text
            then read_quoted text quote (i + 2) (val @ [text ! (i + 1)])
            else read_quoted text quote (i + 1) (val @ [text ! i]))
      else (i, val))"
  by pat_completeness auto
termination
  by (relation "measure (\<lambda>(text, quote, i, val). length text - i)") auto

declare read_quoted.simps [simp del]

text \<open>The result is the decoded value and \<open>endIndex\<close>, the offset after the closing quote.\<close>

definition extractStringArg :: "string \<Rightarrow> nat \<Rightarrow> (string \<times> nat) option" where
  "extractStringArg text startFrom =
     (let i = skip_space_comma text startFrom in
      if i \<ge> length text then None
      else let quote = text ! i in
        if quote \<noteq> dquote \<and> quote \<noteq> squote then None
        else let (j, val) = read_quoted text quote (i + 1) [] in
          if j \<ge> length text then None else Some (val, j + 1))"

subsection \<open>findMatchingParen\<close>

text \<open>
  The inner loop skips the content of a string: a backslash skips the character after it.
  It stops at the closing quote or at (or one past) the end of the text.
\<close>

function skip_quoted :: "string \<Rightarrow> char \<Rightarrow> nat \<Rightarrow> nat" where
  "skip_quoted text quote i =
     (if i < length text \<and> text ! i \<noteq> quote
      then skip_quoted text quote ((if text ! i = backslash then i + 1 else i) + 1)
      else i)"
  by pat_completeness auto
termination
  by (relation "measure (\<lambda>(text, quote, i). length text - i)") auto

declare skip_quoted.simps [simp del]

text \<open>The outer loop, on the pair \<open>(i, depth)\<close>; it returns the pair at its exit.\<close>

function paren_loop :: "string \<Rightarrow> nat \<Rightarrow> nat \<Rightarrow> nat \<times> nat" where
  "paren_loop text i depth =
     (if i < length text \<and> depth > 0
      then (if text ! i = CHR ''('' then paren_loop text (i + 1) (depth + 1)
            else if text ! i = CHR '')'' then paren_loop text (i + 1) (depth - 1)
            else if text ! i = dquote \<or> text ! i = squote
              then paren_loop text (skip_quoted text (text ! i) (i + 1) + 1) depth
            else paren_loop text (i + 1) depth)
      else (i, depth))"
  by pat_completeness auto

lemma skip_quoted_ge: "i \<le> skip_quoted s q i"
proof (induction s q i rule: skip_quoted.induct)
  case (1 s q i)
  show ?case
  proof (cases "i < length s \<and> s ! i \<noteq> q")
    case True
    define j where "j = (if s ! i = backslash then i + 1 else i) + 1"
    have "skip_quoted s q i = skip_quoted s q j"
      using True unfolding j_def by (subst skip_quoted.simps) simp
    moreover have "j \<le> skip_quoted s q j"
      using 1 True unfolding j_def by simp
    moreover have "i \<le> j"
      unfolding j_def by simp
    ultimately show ?thesis by simp
  next
    case False
    then have "skip_quoted s q i = i"
      by (subst skip_quoted.simps) auto
    then show ?thesis by simp
  qed
qed

termination paren_loop
proof (relation "measure (\<lambda>(s, i, depth). length s - i)")
  fix s :: string and i depth :: nat
  assume a: "i < length s \<and> 0 < depth"
  have "i + 1 \<le> skip_quoted s (s ! i) (i + 1)"
    by (rule skip_quoted_ge)
  with a have "length s - (skip_quoted s (s ! i) (i + 1) + 1) < length s - i"
    by arith
  then show "((s, skip_quoted s (s ! i) (i + 1) + 1, depth), s, i, depth)
      \<in> measure (\<lambda>(s, i, depth). length s - i)"
    by simp
qed auto

declare paren_loop.simps [simp del]

text \<open>
  \<open>findMatchingParen(text, openIndex)\<close> starts at \<open>openIndex + 1\<close> with depth 1 and returns
  \<open>i - 1\<close> when the depth came back to 0, otherwise \<open>-1\<close> (\<open>None\<close>). The scan is written on
  its first offset, since the caller's \<open>openIndex\<close> comes from \<open>indexOf\<close>.
\<close>

definition paren_from :: "string \<Rightarrow> nat \<Rightarrow> nat option" where
  "paren_from text start =
     (let (i, depth) = paren_loop text start 1 in if depth = 0 then Some (i - 1) else None)"

definition findMatchingParen :: "string \<Rightarrow> nat \<Rightarrow> nat option" where
  "findMatchingParen text openIndex = paren_from text (openIndex + 1)"

subsection \<open>findChildrenArray\<close>

text \<open>\<open>text.substring(a, b)\<close> for \<open>a \<le> b\<close>.\<close>

definition substring :: "string \<Rightarrow> nat \<Rightarrow> nat \<Rightarrow> string" where
  "substring text a b = take (b - a) (drop a text)"

text \<open>
  The loop on \<open>(i, foundComma)\<close>. The source reads \<open>text[i]\<close> under the guard
  \<open>i < closeParenIndex\<close> only: an \<open>undefined\<close> character is no comma, no bracket and no
  white space (\<open>/\s/.test(undefined)\<close> is false).
\<close>

function children_loop :: "string \<Rightarrow> nat \<Rightarrow> nat \<Rightarrow> bool \<Rightarrow> nat option" where
  "children_loop text i closeParenIndex foundComma =
     (if i < closeParenIndex
      then (if char_at text i = Some (CHR '','')
              then children_loop text (i + 1) closeParenIndex True
            else if char_at text i = Some (CHR ''['') \<and> foundComma then Some i
            else if \<not> (case char_at text i of None \<Rightarrow> False | Some c \<Rightarrow> is_space c)
                    \<and> char_at text i \<noteq> Some (CHR '','')
              then (if substring text i (i + 3) = ''...''
                    then children_loop text (i + 3) closeParenIndex foundComma
                    else children_loop text (i + 1) closeParenIndex foundComma)
            else children_loop text (i + 1) closeParenIndex foundComma)
      else None)"
  by pat_completeness auto
termination
  by (relation "measure (\<lambda>(text, i, closeParenIndex, foundComma). closeParenIndex - i)") auto

declare children_loop.simps [simp del]

definition findChildrenArray :: "string \<Rightarrow> nat \<Rightarrow> nat \<Rightarrow> nat option" where
  "findChildrenArray text afterFileArg closeParenIndex =
     children_loop text afterFileArg closeParenIndex False"

subsection \<open>parseRouteTokens\<close>

datatype RouteType = Route | Index | Layout | Prefix

record RouteToken =
  type :: RouteType
  path :: string
  startIndex :: nat
  endIndex :: nat
  hasChildren :: bool
  childrenStartIndex :: "nat option"

text \<open>The four patterns, in the order of the source: the name of the call and \<open>hasPath\<close>.\<close>

definition patterns :: "RouteType list" where
  "patterns = [Route, Index, Layout, Prefix]"

fun keyword :: "RouteType \<Rightarrow> string" where
  "keyword Route = ''route''"
| "keyword Index = ''index''"
| "keyword Layout = ''layout''"
| "keyword Prefix = ''prefix''"

fun hasPath :: "RouteType \<Rightarrow> bool" where
  "hasPath Route = True"
| "hasPath Index = False"
| "hasPath Layout = False"
| "hasPath Prefix = True"

text \<open>The \<open>\s*\<close> of a pattern takes the longest run of white space.\<close>

function skip_space :: "string \<Rightarrow> nat \<Rightarrow> nat" where
  "skip_space text i =
     (if i < length text \<and> is_space (text ! i) then skip_space text (i + 1) else i)"
  by pat_completeness auto
termination
  by (relation "measure (\<lambda>(text, i). length text - i)") auto

declare skip_space.simps [simp del]

text \<open>
  A match of \<open>/\bname\s*\(/\<close> that starts at offset \<open>s\<close>: a word boundary before the
  name (the start of the text, or a character that is not of \<open>\w\<close>), the name, white space
  and the parenthesis. The result is the offset after the match.
\<close>

definition match_at :: "string \<Rightarrow> string \<Rightarrow> nat \<Rightarrow> nat option" where
  "match_at kw text s =
     (if (s = 0 \<or> \<not> is_word (text ! (s - 1))) \<and> substring text s (s + length kw) = kw
      then (let j = skip_space text (s + length kw) in
            if j < length text \<and> text ! j = CHR ''('' then Some (j + 1) else None)
      else None)"

text \<open>
  \<open>regex.exec(text)\<close> of a global regular expression looks for the leftmost match that
  starts at \<open>lastIndex\<close> or later. It yields \<open>match.index\<close> and the new \<open>lastIndex\<close>,
  the offset after the match; with no match it yields \<open>null\<close> and \<open>lastIndex\<close> becomes 0.
\<close>

function exec_from :: "string \<Rightarrow> string \<Rightarrow> nat \<Rightarrow> (nat \<times> nat) option" where
  "exec_from kw text s =
     (if s < length text
      then (case match_at kw text s of
              Some e \<Rightarrow> Some (s, e)
            | None \<Rightarrow> exec_from kw text (s + 1))
      else None)"
  by pat_completeness auto
termination
  by (relation "measure (\<lambda>(kw, text, s). length text - s)") auto

declare exec_from.simps [simp del]

definition regex_exec :: "string \<Rightarrow> string \<Rightarrow> nat \<Rightarrow> (nat \<times> nat) option \<times> nat" where
  "regex_exec kw text lastIndex =
     (case exec_from kw text lastIndex of
        None \<Rightarrow> (None, 0)
      | Some (s, e) \<Rightarrow> (Some (s, e), e))"

text \<open>\<open>text.indexOf(c, from)\<close>, with \<open>None\<close> for \<open>-1\<close>.\<close>

function indexOf :: "string \<Rightarrow> char \<Rightarrow> nat \<Rightarrow> nat option" where
  "indexOf text c i =
     (if i < length text then (if text ! i = c then Some i else indexOf text c (i + 1)) else None)"
  by pat_completeness auto
termination
  by (relation "measure (\<lambda>(text, c, i). length text - i)") auto

declare indexOf.simps [simp del]

text \<open>
  The body of the \<open>while\<close> loop for one match, in two parts. \<open>make_token\<close> is the part
  after the path argument: it reads the file argument, looks for the children array and
  builds the token.
\<close>

definition make_token :: "RouteType \<Rightarrow> string \<Rightarrow> nat \<Rightarrow> nat \<Rightarrow> string \<Rightarrow> nat \<Rightarrow> RouteToken" where
  "make_token ty text startIndex' closeParenIndex path' afterPathIndex =
     (let afterFileIndex =
            (if ty = Route \<or> ty = Layout \<or> ty = Index
             then (case extractStringArg text afterPathIndex of
                     Some (fileValue, fileEnd) \<Rightarrow> fileEnd
                   | None \<Rightarrow> afterPathIndex)
             else afterPathIndex);
          childrenStart =
            (if ty = Prefix then findChildrenArray text afterPathIndex closeParenIndex
             else if ty = Route \<or> ty = Layout
               then findChildrenArray text afterFileIndex closeParenIndex
             else None)
      in \<lparr>type = ty, path = path', startIndex = startIndex',
          endIndex = closeParenIndex, hasChildren = (childrenStart \<noteq> None),
          childrenStartIndex = childrenStart\<rparr>)"

text \<open>
  \<open>parse_call\<close> is the whole body: the token of the call that starts at \<open>startIndex\<close>, or
  \<open>None\<close> where the source says \<open>continue\<close>. \<open>openParenIndex\<close> is used as
  \<open>openParenIndex + 1\<close> only, which is 0 when \<open>indexOf\<close> gives \<open>-1\<close>.
\<close>

definition parse_call :: "RouteType \<Rightarrow> string \<Rightarrow> nat \<Rightarrow> RouteToken option" where
  "parse_call ty text startIndex' =
     (let afterOpen = (case indexOf text (CHR ''('') startIndex' of
                         None \<Rightarrow> 0
                       | Some openParenIndex \<Rightarrow> openParenIndex + 1) in
      case paren_from text afterOpen of
        None \<Rightarrow> None
      | Some closeParenIndex \<Rightarrow>
          (case (if hasPath ty then extractStringArg text afterOpen else Some ([], afterOpen)) of
             None \<Rightarrow> None
           | Some (path', afterPathIndex) \<Rightarrow>
               Some (make_token ty text startIndex' closeParenIndex path' afterPathIndex)))"

lemma skip_space_ge: "i \<le> skip_space s i"
proof (induction s i rule: skip_space.induct)
  case (1 s i)
  show ?case
  proof (cases "i < length s \<and> is_space (s ! i)")
    case True
    then have "skip_space s i = skip_space s (i + 1)"
      by (subst skip_space.simps) simp
    moreover have "i + 1 \<le> skip_space s (i + 1)"
      using 1 True by simp
    ultimately show ?thesis by simp
  next
    case False
    then have "skip_space s i = i"
      by (subst skip_space.simps) auto
    then show ?thesis by simp
  qed
qed

lemma match_at_bounds:
  assumes "match_at kw s i = Some e"
  shows "i < e \<and> e \<le> length s"
proof -
  define j where "j = skip_space s (i + length kw)"
  from assms have "j < length s \<and> e = j + 1"
    unfolding match_at_def j_def by (auto simp: Let_def split: if_splits)
  moreover have "i + length kw \<le> j"
    unfolding j_def by (rule skip_space_ge)
  ultimately show ?thesis by simp
qed

lemma exec_from_bounds:
  "exec_from kw s i = Some (m, e) \<Longrightarrow> i \<le> m \<and> m < e \<and> e \<le> length s"
proof (induction kw s i rule: exec_from.induct)
  case (1 kw s i)
  from "1.prems" have lt: "i < length s"
    by (subst (asm) exec_from.simps) (simp split: if_splits)
  show ?case
  proof (cases "match_at kw s i")
    case None
    with "1.prems" lt have "exec_from kw s (i + 1) = Some (m, e)"
      by (subst (asm) exec_from.simps) simp
    with "1.IH" lt None show ?thesis by fastforce
  next
    case (Some e')
    with "1.prems" lt have "m = i" "e = e'"
      by (subst (asm) exec_from.simps, simp)+
    with Some match_at_bounds show ?thesis by fastforce
  qed
qed

lemma regex_exec_progress:
  assumes "(Some m, e) = regex_exec kw s lastIndex"
  shows "length s - e < length s - lastIndex"
proof -
  from assms obtain i where "exec_from kw s lastIndex = Some (i, e)"
    unfolding regex_exec_def by (auto split: option.splits)
  then have "lastIndex < e \<and> e \<le> length s"
    using exec_from_bounds by fastforce
  then show ?thesis by arith
qed

text \<open>
  The \<open>while\<close> loop of one pattern, on the \<open>lastIndex\<close> of its \<open>RegExp\<close> object and the
  shared array \<open>tokens\<close>. It returns the array and the \<open>lastIndex\<close> it leaves behind.
\<close>

function scan_loop :: "RouteType \<Rightarrow> string \<Rightarrow> nat \<Rightarrow> RouteToken list \<Rightarrow> RouteToken list \<times> nat" where
  "scan_loop ty text lastIndex tokens =
     (case regex_exec (keyword ty) text lastIndex of
        (None, lastIndex') \<Rightarrow> (tokens, lastIndex')
      | (Some (startIndex', matchEnd), lastIndex') \<Rightarrow>
          scan_loop ty text lastIndex'
            (case parse_call ty text startIndex' of
               None \<Rightarrow> tokens
             | Some token \<Rightarrow> tokens @ [token]))"
  by pat_completeness auto
termination
  by (relation "measure (\<lambda>(ty, s, lastIndex, tokens). length s - lastIndex)")
     (auto dest: regex_exec_progress)

declare scan_loop.simps [simp del]

text \<open>
  Every call of \<open>parseRouteTokens\<close> evaluates the four regular expression literals anew,
  so every loop starts at \<open>lastIndex = 0\<close>. The sort is stable, by \<open>startIndex\<close>.
\<close>

definition parseRouteTokens :: "string \<Rightarrow> RouteToken list" where
  "parseRouteTokens text =
     sort_key startIndex (fold (\<lambda>ty tokens. fst (scan_loop ty text 0 tokens)) patterns [])"

subsection \<open>buildTree\<close>

text \<open>
  A tree node is the index of its token in the sorted array. The test of the two inner
  loops: \<open>potentialParent\<close> has a children array after which \<open>node\<close> starts, and \<open>node\<close>
  ends at or before the end of \<open>potentialParent\<close>.
\<close>

definition contains_node :: "RouteToken \<Rightarrow> RouteToken \<Rightarrow> bool" where
  "contains_node potentialParent node =
     (hasChildren potentialParent \<and>
      (case childrenStartIndex potentialParent of
         None \<Rightarrow> False
       | Some c \<Rightarrow> startIndex node > c \<and> endIndex node \<le> endIndex potentialParent))"

text \<open>The loop on \<open>k\<close> from \<open>j + 1\<close> up to \<open>i\<close>, which computes \<open>isClosestParent\<close>.\<close>

function is_closest :: "RouteToken list \<Rightarrow> nat \<Rightarrow> nat \<Rightarrow> bool" where
  "is_closest tokens i k =
     (if k < i
      then (if contains_node (tokens ! k) (tokens ! i) then False
            else is_closest tokens i (k + 1))
      else True)"
  by pat_completeness auto
termination
  by (relation "measure (\<lambda>(tokens, i, k). i - k)") auto

declare is_closest.simps [simp del]

text \<open>
  The loop on \<open>j\<close> from \<open>i - 1\<close> down to 0, written on \<open>j + 1\<close>: the parent of node \<open>i\<close>,
  or \<open>None\<close> when \<open>foundParent\<close> stays false.
\<close>

fun find_parent :: "RouteToken list \<Rightarrow> nat \<Rightarrow> nat \<Rightarrow> nat option" where
  "find_parent tokens i 0 = None"
| "find_parent tokens i (Suc j) =
     (if contains_node (tokens ! j) (tokens ! i) \<and> is_closest tokens i (j + 1) then Some j
      else find_parent tokens i j)"

definition parent_of :: "RouteToken list \<Rightarrow> nat \<Rightarrow> nat option" where
  "parent_of tokens i = find_parent tokens i i"

lemma find_parent_less: "find_parent ts i n = Some j \<Longrightarrow> j < n"
  by (induction n) (auto split: if_splits simp: less_Suc_eq)

lemma parent_of_less: "parent_of ts i = Some j \<Longrightarrow> j < i"
  unfolding parent_of_def by (rule find_parent_less)

text \<open>
  The loop on \<open>i\<close> pushes node \<open>i\<close> onto the children of its parent, or onto \<open>roots\<close>.
  Its state is the array \<open>roots\<close> and the \<open>children\<close> array of every node; the \<open>parent\<close>
  reference of node \<open>i\<close> is \<open>parent_of tokens i\<close>.
\<close>

definition push_node ::
    "RouteToken list \<Rightarrow> nat \<Rightarrow> nat list \<times> (nat \<Rightarrow> nat list) \<Rightarrow> nat list \<times> (nat \<Rightarrow> nat list)" where
  "push_node tokens i st =
     (case parent_of tokens i of
        None \<Rightarrow> (fst st @ [i], snd st)
      | Some potentialParent \<Rightarrow>
          (fst st, (snd st)(potentialParent := snd st potentialParent @ [i])))"

definition build_loop :: "RouteToken list \<Rightarrow> nat list \<times> (nat \<Rightarrow> nat list)" where
  "build_loop tokens = fold (push_node tokens) [0..<length tokens] ([], \<lambda>node. [])"

text \<open>\<open>buildTree\<close> returns the roots; the children arrays stay with the nodes.\<close>

definition buildTree :: "RouteToken list \<Rightarrow> nat list" where
  "buildTree tokens = fst (build_loop tokens)"

definition children_of :: "RouteToken list \<Rightarrow> nat \<Rightarrow> nat list" where
  "children_of tokens node = snd (build_loop tokens) node"

text \<open>
  The pushes happen for \<open>i\<close> from 0 upwards, so the roots are the nodes with no parent and
  the children of a node are the nodes with that parent, both in increasing order.
\<close>

lemma push_nodes_filter:
  "fold (push_node ts) [0..<n] ([], \<lambda>node. []) =
     (filter (\<lambda>i. parent_of ts i = None) [0..<n],
      \<lambda>node. filter (\<lambda>i. parent_of ts i = Some node) [0..<n])"
proof (induction n)
  case 0
  show ?case by simp
next
  case (Suc n)
  show ?case
  proof (cases "parent_of ts n")
    case None
    with Suc show ?thesis by (simp add: push_node_def)
  next
    case (Some j)
    have "(\<lambda>node. filter (\<lambda>i. parent_of ts i = Some node) [0..<n])
        (j := filter (\<lambda>i. parent_of ts i = Some j) [0..<n] @ [n])
      = (\<lambda>node. filter (\<lambda>i. parent_of ts i = Some node) [0..<Suc n])"
      using Some by (auto simp: fun_eq_iff)
    with Suc Some show ?thesis by (simp add: push_node_def)
  qed
qed

lemma buildTree_filter:
  "buildTree ts = filter (\<lambda>i. parent_of ts i = None) [0..<length ts]"
  unfolding buildTree_def build_loop_def push_nodes_filter by simp

lemma children_of_filter:
  "children_of ts j = filter (\<lambda>i. parent_of ts i = Some j) [0..<length ts]"
  unfolding children_of_def build_loop_def push_nodes_filter by simp

subsection \<open>calculateFullPath\<close>

text \<open>
  The \<open>while\<close> loop walks from the node to its root; \<open>pathParts.unshift\<close> puts the path
  of a node that is no layout and has a path that is not empty in front.
\<close>

function path_parts :: "RouteToken list \<Rightarrow> nat \<Rightarrow> string list \<Rightarrow> string list" where
  "path_parts tokens current pathParts =
     (let pathParts' =
            (if type (tokens ! current) \<noteq> Layout \<and> path (tokens ! current) \<noteq> []
             then path (tokens ! current) # pathParts else pathParts) in
      case parent_of tokens current of
        None \<Rightarrow> pathParts'
      | Some parent \<Rightarrow> path_parts tokens parent pathParts')"
  by pat_completeness auto
termination
  by (relation "measure (\<lambda>(tokens, current, pathParts). current)")
     (auto dest: parent_of_less)

declare path_parts.simps [simp del]

text \<open>\<open>pathParts.join('/')\<close>.\<close>

fun join_slash :: "string list \<Rightarrow> string" where
  "join_slash [] = []"
| "join_slash [p] = p"
| "join_slash (p # q # ps) = p @ CHR ''/'' # join_slash (q # ps)"

text \<open>\<open>replace(/\/+/g, '/')\<close>: every longest run of slashes becomes one slash.\<close>

function collapse_slashes :: "string \<Rightarrow> string" where
  "collapse_slashes [] = []"
| "collapse_slashes (c # cs) =
     (if c = CHR ''/'' then CHR ''/'' # collapse_slashes (dropWhile (\<lambda>d. d = CHR ''/'') cs)
      else c # collapse_slashes cs)"
  by pat_completeness auto
termination
  by (relation "measure length") (auto simp: length_dropWhile_le less_Suc_eq_le)

text \<open>\<open>replace(/^\/+/, '')\<close> drops the slashes at the start.\<close>

definition strip_leading_slashes :: "string \<Rightarrow> string" where
  "strip_leading_slashes cs = dropWhile (\<lambda>d. d = CHR ''/'') cs"

definition calculateFullPath :: "RouteToken list \<Rightarrow> nat \<Rightarrow> string" where
  "calculateFullPath tokens node =
     (let combined = collapse_slashes (join_slash (path_parts tokens node []))
      in CHR ''/'' # strip_leading_slashes combined)"

subsection \<open>traverse and parseRoutesFile\<close>

record Range =
  startLine :: int
  startCharacter :: int
  endLine :: int
  endCharacter :: int

record RouteInfo =
  info_type :: RouteType
  info_path :: string
  fullPath :: string
  line :: int
  range :: Range

text \<open>\<open>getLineFromIndex\<close>: the number of newlines in \<open>text.substring(0, index)\<close>.\<close>

definition getLineFromIndex :: "string \<Rightarrow> nat \<Rightarrow> int" where
  "getLineFromIndex text index = int (length (filter (\<lambda>c. c = newline) (substring text 0 index)))"

text \<open>
  \<open>text.lastIndexOf(c, position)\<close>: the search starts at \<open>position\<close>, clamped to the
  offsets of the text, and goes down; \<open>-1\<close> when \<open>c\<close> is not found.
\<close>

fun last_index_upto :: "string \<Rightarrow> char \<Rightarrow> nat \<Rightarrow> int" where
  "last_index_upto text c 0 = -1"
| "last_index_upto text c (Suc k) =
     (if text ! k = c then int k else last_index_upto text c k)"

definition lastIndexOf :: "string \<Rightarrow> char \<Rightarrow> int \<Rightarrow> int" where
  "lastIndexOf text c position =
     (if text = [] then -1
      else last_index_upto text c (Suc (min (nat (max position 0)) (length text - 1))))"

definition getColumnFromIndex :: "string \<Rightarrow> nat \<Rightarrow> int" where
  "getColumnFromIndex text index =
     (let lastNewline = lastIndexOf text newline (int index - 1) in int index - lastNewline - 1)"

lemma children_of_bounds: "c \<in> set (children_of ts i) \<Longrightarrow> i < c \<and> c < length ts"
  unfolding children_of_filter by (auto dest: parent_of_less)

text \<open>
  The record that \<open>traverse\<close> builds for a node. \<open>calculateFullPath(node) || '/'\<close>
  replaces an empty string by \<open>/\<close>. The range goes from the column of the token over the
  length of its type name.
\<close>

definition route_info :: "string \<Rightarrow> RouteToken list \<Rightarrow> nat \<Rightarrow> RouteInfo" where
  "route_info text tokens node =
     (let token = tokens ! node;
          fullPath' = (if calculateFullPath tokens node = [] then ''/''
                       else calculateFullPath tokens node);
          line' = getLineFromIndex text (startIndex token);
          col = getColumnFromIndex text (startIndex token)
      in \<lparr>info_type = type token, info_path = path token, fullPath = fullPath',
          line = line',
          range = \<lparr>startLine = line', startCharacter = col, endLine = line',
                     endCharacter = col + int (length (keyword (type token)))\<rparr>\<rparr>)"

text \<open>
  \<open>traverse\<close> pushes the record of a node that is no prefix, then visits the children in
  order. This function gives the records of a walk that has the stack it needs; the walk
  on a stack of a given size is \<open>traverse_stack\<close> below.
\<close>

function traverse :: "string \<Rightarrow> RouteToken list \<Rightarrow> nat \<Rightarrow> RouteInfo list" where
  "traverse text tokens node =
     (if type (tokens ! node) \<noteq> Prefix then [route_info text tokens node] else [])
     @ concat (map (traverse text tokens) (children_of tokens node))"
  by pat_completeness auto
termination
  by (relation "measure (\<lambda>(text, tokens, node). length tokens - node)")
     (auto dest: children_of_bounds)

declare traverse.simps [simp del]

definition parseRoutesFile :: "string \<Rightarrow> RouteInfo list" where
  "parseRoutesFile text =
     (let tokens = parseRouteTokens text
      in concat (map (traverse text tokens) (buildTree tokens)))"

subsection \<open>The call stack of traverse\<close>

text \<open>
  \<open>traverse\<close> calls itself for every child, so a node whose chain from its root has \<open>d\<close>
  nodes is visited with \<open>d\<close> activations of \<open>traverse\<close> on the call stack of the engine. The stack is
  finite; a call for which it has no room raises a \<open>RangeError\<close>, and neither
  \<open>parseRoutesFile\<close> nor its caller catches it. The source is the same for every size of
  the stack, so the size is a parameter: \<open>frames\<close> is the number of nested activations of
  \<open>traverse\<close>, each with the calls of its body, that the stack has room for when
  \<open>parseRoutesFile\<close> starts the walk. The scanning loops, \<open>buildTree\<close> and
  \<open>calculateFullPath\<close> are loops of the source and use no stack that grows with the text.
\<close>

datatype error = RangeError

text \<open>
  The outcome of a sequence of calls: the first call that raises ends the sequence, and
  the records of the calls before it are lost with the local array \<open>routes\<close>.
\<close>

fun collect :: "(error + 'a list) list \<Rightarrow> error + 'a list" where
  "collect [] = Inr []"
| "collect (Inl e # rs) = Inl e"
| "collect (Inr xs # rs) = (case collect rs of Inl e \<Rightarrow> Inl e | Inr ys \<Rightarrow> Inr (xs @ ys))"

text \<open>
  \<open>traverse\<close> with \<open>frames\<close> activations left: with none the call raises; otherwise the
  record of the node is pushed and every child is visited with one activation less.
\<close>

fun traverse_stack :: "nat \<Rightarrow> string \<Rightarrow> RouteToken list \<Rightarrow> nat \<Rightarrow> error + RouteInfo list" where
  "traverse_stack 0 text tokens node = Inl RangeError"
| "traverse_stack (Suc frames) text tokens node =
     (case collect (map (traverse_stack frames text tokens) (children_of tokens node)) of
        Inl e \<Rightarrow> Inl e
      | Inr rs \<Rightarrow>
          Inr ((if type (tokens ! node) \<noteq> Prefix then [route_info text tokens node] else [])
               @ rs))"

definition parseRoutesFile_stack :: "nat \<Rightarrow> string \<Rightarrow> error + RouteInfo list" where
  "parseRoutesFile_stack frames text =
     (let tokens = parseRouteTokens text
      in collect (map (traverse_stack frames text tokens) (buildTree tokens)))"

section \<open>Notions for the statements\<close>

subsection \<open>The texts of the examples\<close>

definition dashboard_text :: string where
  "dashboard_text =
     ''prefix('dashboard', [ index('./d/home.tsx'), route('settings', './d/settings.tsx') ])''"

definition layout_text :: string where
  "layout_text = ''layout('./layout.tsx', [ route('x', './x.tsx') ])''"

definition home_text :: string where
  "home_text = ''index('./home.tsx')''"

text \<open>
  \<open>prefix('a', [ 'index(\'' ])\<close>: the array holds a string that ends with an escaped quote.
\<close>

definition escaped_quote_text :: string where
  "escaped_quote_text = ''prefix('a', [ 'index('' @ [backslash, squote, squote] @ '' ])''"

text \<open>\<open>prefix('a', [ route('', './x.tsx') ])\<close>: a route whose declared segment is empty.\<close>

definition empty_segment_text :: string where
  "empty_segment_text = ''prefix('a', [ route('' @ [squote, squote] @ '', './x.tsx') ])''"


text \<open>Three levels: an index in a layout in a prefix.\<close>

definition nested_text :: string where
  "nested_text = ''prefix('a', [ layout('./l.tsx', [ index('./i.tsx') ]) ])''"

text \<open>
  Layouts nested to any depth: \<open>deep_text n\<close> is \<open>n\<close> times \<open>layout('x',[\<close> and
  then \<open>n\<close> times \<open>])\<close>, so every layout but the last has the next one as the only
  element of its array; \<open>deep_text 2\<close> is \<open>layout('x',[layout('x',[])])\<close>.
\<close>

definition layout_open :: string where
  "layout_open = ''layout('x',[''"

definition layout_close :: string where
  "layout_close = ''])''"

definition deep_text :: "nat \<Rightarrow> string" where
  "deep_text n = concat (replicate n layout_open) @ concat (replicate n layout_close)"

text \<open>The token of the layout at depth \<open>i\<close> of \<open>deep_text n\<close>, counted from 0.\<close>

definition deep_token :: "nat \<Rightarrow> nat \<Rightarrow> RouteToken" where
  "deep_token n i =
     \<lparr>type = Layout, path = [], startIndex = 12 * i, endIndex = 12 * n + 2 * (n - i) - 1,
      hasChildren = True, childrenStartIndex = Some (12 * i + 11)\<rparr>"

subsection \<open>The chain of a node\<close>

text \<open>The nodes from the root down to \<open>node\<close>, along the \<open>parent\<close> references.\<close>

function ancestors :: "RouteToken list \<Rightarrow> nat \<Rightarrow> nat list" where
  "ancestors tokens node =
     (case parent_of tokens node of
        None \<Rightarrow> [node]
      | Some parent \<Rightarrow> ancestors tokens parent @ [node])"
  by pat_completeness auto
termination
  by (relation "measure snd") (auto dest: parent_of_less)

declare ancestors.simps [simp del]

text \<open>The nodes of the subtree of \<open>node\<close>, in the order in which \<open>traverse\<close> visits them.\<close>

function preorder :: "RouteToken list \<Rightarrow> nat \<Rightarrow> nat list" where
  "preorder tokens node = node # concat (map (preorder tokens) (children_of tokens node))"
  by pat_completeness auto
termination
  by (relation "measure (\<lambda>(tokens, node). length tokens - node)")
     (auto dest: children_of_bounds)

declare preorder.simps [simp del]

text \<open>
  The segments that the walk of \<open>calculateFullPath\<close> collects: the paths, from the root
  down, of the nodes of the chain that are no layout and have a path that is not empty.
\<close>

definition segments :: "RouteToken list \<Rightarrow> nat \<Rightarrow> string list" where
  "segments tokens node =
     map path (filter (\<lambda>t. type t \<noteq> Layout \<and> path t \<noteq> [])
       (map ((!) tokens) (ancestors tokens node)))"

text \<open>
  The full path in the words of the specification: the declared segment of every node of
  the chain that is no layout, joined, collapsed, stripped and prefixed.
\<close>

definition spec_fullPath :: "RouteToken list \<Rightarrow> nat \<Rightarrow> string" where
  "spec_fullPath tokens node =
     CHR ''/'' # strip_leading_slashes (collapse_slashes (join_slash
       (map path (filter (\<lambda>t. type t \<noteq> Layout) (map ((!) tokens) (ancestors tokens node))))))"

subsection \<open>The parent in the words of the specification\<close>

text \<open>
  The span of \<open>node\<close> lies strictly inside the span from the children array of
  \<open>candidate\<close> to the end of its call.
\<close>

definition strictly_inside :: "RouteToken \<Rightarrow> RouteToken \<Rightarrow> bool" where
  "strictly_inside candidate node =
     (hasChildren candidate \<and>
      (case childrenStartIndex candidate of
         None \<Rightarrow> False
       | Some c \<Rightarrow> c < startIndex node \<and> endIndex node < endIndex candidate))"

definition spec_parent :: "RouteToken list \<Rightarrow> nat \<Rightarrow> nat option" where
  "spec_parent tokens i =
     (case filter (\<lambda>j. strictly_inside (tokens ! j) (tokens ! i)) (rev [0..<i]) of
        [] \<Rightarrow> None
      | j # js \<Rightarrow> Some j)"

subsection \<open>The first array after a comma\<close>

text \<open>
  \<open>comma_seen\<close>: the scan that started at \<open>i\<close> with the flag \<open>foundComma\<close> has seen a comma
  when it arrives at \<open>k\<close>. \<open>first_array\<close>: \<open>k\<close> is the first offset from \<open>i\<close> on, before
  \<open>closeParenIndex\<close>, of a bracket that the scan meets after a comma.
\<close>

definition comma_seen :: "string \<Rightarrow> nat \<Rightarrow> bool \<Rightarrow> nat \<Rightarrow> bool" where
  "comma_seen text i foundComma k =
     (foundComma \<or> (\<exists>c. i \<le> c \<and> c < k \<and> char_at text c = Some (CHR '','')))"

definition first_array :: "string \<Rightarrow> nat \<Rightarrow> nat \<Rightarrow> bool \<Rightarrow> nat \<Rightarrow> bool" where
  "first_array text i closeParenIndex foundComma k =
     (i \<le> k \<and> k < closeParenIndex \<and> char_at text k = Some (CHR ''['') \<and>
      comma_seen text i foundComma k \<and>
      (\<forall>m. i \<le> m \<and> m < k \<and> char_at text m = Some (CHR ''['') \<longrightarrow>
           \<not> comma_seen text i foundComma m))"

subsection \<open>Occurrences and strings without an end\<close>

text \<open>
  An occurrence of a construct: an offset of the text where the pattern of its type
  matches.
\<close>

definition occurrence :: "RouteType \<Rightarrow> string \<Rightarrow> nat \<Rightarrow> bool" where
  "occurrence ty text s = (s < length text \<and> match_at (keyword ty) text s \<noteq> None)"

text \<open>
  The tokens of the occurrences of one type that are not dropped, in the order of the text.
\<close>

definition surviving_tokens :: "RouteType \<Rightarrow> string \<Rightarrow> RouteToken list" where
  "surviving_tokens ty text =
     List.map_filter (parse_call ty text) (filter (occurrence ty text) [0..<length text])"

text \<open>
  A string argument that starts at or after \<open>a\<close>, behind white space and commas only, and
  has no closing quote: the case in which \<open>extractStringArg\<close> gives up at the end of the
  text.
\<close>

definition unterminated :: "string \<Rightarrow> nat \<Rightarrow> bool" where
  "unterminated text a =
     (let i = skip_space_comma text a in
      i < length text \<and> (text ! i = dquote \<or> text ! i = squote) \<and>
      length text \<le> fst (read_quoted text (text ! i) (i + 1) []))"

text \<open>\<open>route(x)\<close> has no string argument; the string of the last call never ends.\<close>

definition malformed_text :: string where
  "malformed_text = ''route('a', './a.tsx'), route(x), index('./i.tsx'), layout('./l.tsx''"

text \<open>The second string argument of this route never ends.\<close>

definition unterminated_file_text :: string where
  "unterminated_file_text = ''route('b', './b.tsx''"

subsection \<open>The matching parenthesis in the words of the specification\<close>

text \<open>
  The scan of the characters after the opening parenthesis, one character at a time, with
  the depth as a counter; the result counts the characters before the match. A quote
  starts a quoted run, which \<open>spec_quoted\<close> consumes up to the same quote: a backslash
  takes the character after it along, and parentheses in the run are not looked at. Where
  the characters end, nothing is found.
\<close>

fun spec_scan :: "string \<Rightarrow> nat \<Rightarrow> nat option"
  and spec_quoted :: "char \<Rightarrow> string \<Rightarrow> nat \<Rightarrow> nat option" where
  "spec_scan [] depth = None"
| "spec_scan (c # cs) depth =
     (if c = CHR ''('' then map_option Suc (spec_scan cs (depth + 1))
      else if c = CHR '')''
        then (if depth = 1 then Some 0 else map_option Suc (spec_scan cs (depth - 1)))
      else if c = dquote \<or> c = squote then map_option Suc (spec_quoted c cs depth)
      else map_option Suc (spec_scan cs depth))"
| "spec_quoted q [] depth = None"
| "spec_quoted q [c] depth = (if c = q then map_option Suc (spec_scan [] depth) else None)"
| "spec_quoted q (c # e # cs) depth =
     (if c = q then map_option Suc (spec_scan (e # cs) depth)
      else if c = backslash then map_option (\<lambda>n. n + 2) (spec_quoted q cs depth)
      else map_option Suc (spec_quoted q (e # cs) depth))"

definition spec_matching_paren :: "string \<Rightarrow> nat \<Rightarrow> nat option" where
  "spec_matching_paren text openIndex =
     map_option (\<lambda>n. openIndex + 1 + n) (spec_scan (drop (openIndex + 1) text) 1)"

text \<open>The result of \<open>findMatchingParen\<close> from the pair that its loop leaves.\<close>

definition paren_result :: "nat \<times> nat \<Rightarrow> nat option" where
  "paren_result r = (if snd r = 0 then Some (fst r - 1) else None)"

text \<open>A route whose path holds an opening parenthesis, before well-formed constructs.\<close>

definition quoted_paren_text :: string where
  "quoted_paren_text =
     ''route('a(b', './f.tsx'), route('c', './c.tsx', [ index('./i.tsx') ])''"

subsection \<open>Two slashes in a row\<close>

fun has_double_slash :: "string \<Rightarrow> bool" where
  "has_double_slash (c # d # cs) = ((c = CHR ''/'' \<and> d = CHR ''/'') \<or> has_double_slash (d # cs))"
| "has_double_slash cs = False"

section \<open>Lemmas\<close>

subsection \<open>The slashes of a full path\<close>

lemma has_double_slash_iff: "has_double_slash s \<longleftrightarrow> (\<exists>u v. s = u @ ''//'' @ v)"
proof (induction s rule: has_double_slash.induct)
  case (1 c d cs)
  show ?case
  proof
    assume "has_double_slash (c # d # cs)"
    then consider "c = CHR ''/'' \<and> d = CHR ''/''" | "has_double_slash (d # cs)" by auto
    then show "\<exists>u v. c # d # cs = u @ ''//'' @ v"
    proof cases
      case 1
      then have "c # d # cs = [] @ ''//'' @ cs" by simp
      then show ?thesis by blast
    next
      case 2
      with "1.IH" obtain u v where "d # cs = u @ ''//'' @ v" by auto
      then have "c # d # cs = (c # u) @ ''//'' @ v" by simp
      then show ?thesis by blast
    qed
  next
    assume "\<exists>u v. c # d # cs = u @ ''//'' @ v"
    then obtain u v where uv: "c # d # cs = u @ ''//'' @ v" by auto
    show "has_double_slash (c # d # cs)"
    proof (cases u)
      case Nil
      with uv show ?thesis by simp
    next
      case (Cons a u')
      with uv have "d # cs = u' @ ''//'' @ v" by simp
      then have "has_double_slash (d # cs)" using "1.IH" by blast
      then show ?thesis by simp
    qed
  qed
qed (auto simp: append_eq_Cons_conv)

lemma collapse_head: "collapse_slashes s = c # r \<Longrightarrow> \<exists>t. s = c # t"
  by (cases s) (auto split: if_splits)

lemma dropWhile_head: "dropWhile P s = c # r \<Longrightarrow> \<not> P c"
  by (metis hd_dropWhile list.distinct(1) list.sel(1))

lemma collapse_no_double: "\<not> has_double_slash (collapse_slashes s)"
proof (induction s rule: collapse_slashes.induct)
  case 1
  show ?case by simp
next
  case (2 c cs)
  show ?case
  proof (cases "c = CHR ''/''")
    case True
    define r where "r = collapse_slashes (dropWhile (\<lambda>d. d = CHR ''/'') cs)"
    have nd: "\<not> has_double_slash r" using 2 True r_def by simp
    have "\<not> has_double_slash (CHR ''/'' # r)"
    proof (cases r)
      case Nil
      then show ?thesis by simp
    next
      case (Cons a r')
      with r_def have "collapse_slashes (dropWhile (\<lambda>d. d = CHR ''/'') cs) = a # r'"
        by simp
      then obtain t where "dropWhile (\<lambda>d. d = CHR ''/'') cs = a # t"
        using collapse_head by blast
      then have "a \<noteq> CHR ''/''" using dropWhile_head by fastforce
      with nd Cons show ?thesis by simp
    qed
    with True show ?thesis by (simp add: r_def)
  next
    case False
    define r where "r = collapse_slashes cs"
    have nd: "\<not> has_double_slash r" using 2 False r_def by simp
    have "\<not> has_double_slash (c # r)"
      using nd False by (cases r) auto
    with False show ?thesis by (simp add: r_def)
  qed
qed

lemma has_double_slash_dropWhile: "\<not> has_double_slash s \<Longrightarrow> \<not> has_double_slash (dropWhile P s)"
proof (induction s rule: has_double_slash.induct)
  case (1 c d cs)
  then show ?case by (cases "P c") auto
qed auto

lemma calculateFullPath_shape:
  "\<exists>r. calculateFullPath ts i = CHR ''/'' # r \<and> \<not> has_double_slash (calculateFullPath ts i)"
proof -
  define x where "x = collapse_slashes (join_slash (path_parts ts i []))"
  define y where "y = strip_leading_slashes x"
  have full: "calculateFullPath ts i = CHR ''/'' # y"
    unfolding calculateFullPath_def x_def y_def by (simp add: Let_def)
  have "\<not> has_double_slash x" unfolding x_def by (rule collapse_no_double)
  then have ny: "\<not> has_double_slash y"
    unfolding y_def strip_leading_slashes_def by (rule has_double_slash_dropWhile)
  have "\<not> has_double_slash (CHR ''/'' # y)"
  proof (cases y)
    case Nil
    then show ?thesis by simp
  next
    case (Cons a y')
    then have "a \<noteq> CHR ''/''"
      using dropWhile_head[of "\<lambda>d. d = CHR ''/''" x a y'] unfolding y_def strip_leading_slashes_def by simp
    with ny Cons show ?thesis by simp
  qed
  with full show ?thesis by simp
qed

subsection \<open>The walk to the root\<close>

lemma path_parts_segments: "path_parts ts i acc = segments ts i @ acc"
proof (induction ts i acc rule: path_parts.induct)
  case (1 ts i acc)
  define acc' where "acc' = (if type (ts ! i) \<noteq> Layout \<and> path (ts ! i) \<noteq> [] then path (ts ! i) # acc else acc)"
  show ?case
  proof (cases "parent_of ts i")
    case None
    then have "path_parts ts i acc = acc'"
      unfolding acc'_def by (subst path_parts.simps) (simp add: Let_def)
    moreover from None have "ancestors ts i = [i]"
      by (subst ancestors.simps) simp
    ultimately show ?thesis
      unfolding segments_def acc'_def by simp
  next
    case (Some j)
    then have "path_parts ts i acc = path_parts ts j acc'"
      unfolding acc'_def by (subst path_parts.simps) (simp add: Let_def)
    also have "\<dots> = segments ts j @ acc'"
      using "1.IH"[OF acc'_def[symmetric, THEN sym] Some] by simp
    finally have "path_parts ts i acc = segments ts j @ acc'" .
    moreover from Some have "ancestors ts i = ancestors ts j @ [i]"
      by (subst ancestors.simps) simp
    ultimately show ?thesis
      unfolding segments_def acc'_def by simp
  qed
qed

subsection \<open>The nearest candidate\<close>

lemma is_closest_iff:
  "is_closest ts i k \<longleftrightarrow> (\<forall>m. k \<le> m \<and> m < i \<longrightarrow> \<not> contains_node (ts ! m) (ts ! i))"
proof (induction ts i k rule: is_closest.induct)
  case (1 ts i k)
  show ?case
  proof (cases "k < i")
    case False
    then show ?thesis by (subst is_closest.simps) auto
  next
    case True
    show ?thesis
    proof (cases "contains_node (ts ! k) (ts ! i)")
      case c: True
      with True have "\<not> is_closest ts i k" by (subst is_closest.simps) simp
      with c True show ?thesis by auto
    next
      case c: False
      with True have "is_closest ts i k = is_closest ts i (k + 1)"
        by (subst is_closest.simps) simp
      also have "\<dots> \<longleftrightarrow> (\<forall>m. k + 1 \<le> m \<and> m < i \<longrightarrow> \<not> contains_node (ts ! m) (ts ! i))"
        using "1.IH" True c by simp
      also have "\<dots> \<longleftrightarrow> (\<forall>m. k \<le> m \<and> m < i \<longrightarrow> \<not> contains_node (ts ! m) (ts ! i))"
        using c by (metis Suc_eq_plus1 Suc_leI le_neq_implies_less add_leD1 le_add1 le_trans)
      finally show ?thesis .
    qed
  qed
qed

lemma find_parent_Some:
  "find_parent ts i n = Some j \<longleftrightarrow>
     j < n \<and> contains_node (ts ! j) (ts ! i) \<and> is_closest ts i (j + 1) \<and>
     (\<forall>m. j < m \<and> m < n \<longrightarrow> \<not> (contains_node (ts ! m) (ts ! i) \<and> is_closest ts i (m + 1)))"
proof (induction n)
  case 0
  show ?case by simp
next
  case (Suc n)
  show ?case
  proof (cases "contains_node (ts ! n) (ts ! i) \<and> is_closest ts i (n + 1)")
    case True
    then have "find_parent ts i (Suc n) = Some n" by simp
    with True show ?thesis
      by (metis Suc_eq_plus1 less_Suc_eq not_less_iff_gr_or_eq option.inject)
  next
    case False
    then have "find_parent ts i (Suc n) = find_parent ts i n" by auto
    with Suc False show ?thesis
      by (metis less_Suc_eq)
  qed
qed

lemma find_parent_None:
  "find_parent ts i n = None \<longleftrightarrow>
     (\<forall>m. m < n \<longrightarrow> \<not> (contains_node (ts ! m) (ts ! i) \<and> is_closest ts i (m + 1)))"
  by (induction n) (auto simp: less_Suc_eq)

lemma parent_of_Some:
  "parent_of ts i = Some j \<longleftrightarrow>
     j < i \<and> contains_node (ts ! j) (ts ! i) \<and>
     (\<forall>k. j < k \<and> k < i \<longrightarrow> \<not> contains_node (ts ! k) (ts ! i))"
proof
  assume "parent_of ts i = Some j"
  then have "j < i \<and> contains_node (ts ! j) (ts ! i) \<and> is_closest ts i (j + 1)"
    unfolding parent_of_def find_parent_Some by simp
  then show "j < i \<and> contains_node (ts ! j) (ts ! i) \<and>
     (\<forall>k. j < k \<and> k < i \<longrightarrow> \<not> contains_node (ts ! k) (ts ! i))"
    unfolding is_closest_iff by simp
next
  assume a: "j < i \<and> contains_node (ts ! j) (ts ! i) \<and>
     (\<forall>k. j < k \<and> k < i \<longrightarrow> \<not> contains_node (ts ! k) (ts ! i))"
  then have "is_closest ts i (j + 1)"
    unfolding is_closest_iff by simp
  with a show "parent_of ts i = Some j"
    unfolding parent_of_def find_parent_Some by simp
qed

lemma parent_of_None:
  "parent_of ts i = None \<longleftrightarrow> (\<forall>j. j < i \<longrightarrow> \<not> contains_node (ts ! j) (ts ! i))"
proof
  assume n: "parent_of ts i = None"
  show "\<forall>j. j < i \<longrightarrow> \<not> contains_node (ts ! j) (ts ! i)"
  proof (rule ccontr)
    assume "\<not> (\<forall>j. j < i \<longrightarrow> \<not> contains_node (ts ! j) (ts ! i))"
    then have ex: "\<exists>j. j < i \<and> contains_node (ts ! j) (ts ! i)" by simp
    define g where "g = (GREATEST j. j < i \<and> contains_node (ts ! j) (ts ! i))"
    have g: "g < i \<and> contains_node (ts ! g) (ts ! i)"
      unfolding g_def using ex
      by (metis (mono_tags, lifting) GreatestI_ex_nat less_imp_le_nat)
    have "\<forall>k. g < k \<and> k < i \<longrightarrow> \<not> contains_node (ts ! k) (ts ! i)"
    proof (intro allI impI)
      fix k assume k: "g < k \<and> k < i"
      show "\<not> contains_node (ts ! k) (ts ! i)"
      proof
        assume "contains_node (ts ! k) (ts ! i)"
        with k have "k \<le> g"
          unfolding g_def by (metis (mono_tags, lifting) Greatest_le_nat less_imp_le_nat)
        with k show False by simp
      qed
    qed
    with g have "parent_of ts i = Some g" unfolding parent_of_Some by simp
    with n show False by simp
  qed
next
  assume "\<forall>j. j < i \<longrightarrow> \<not> contains_node (ts ! j) (ts ! i)"
  then show "parent_of ts i = None"
    unfolding parent_of_def find_parent_None by simp
qed

subsection \<open>The scan for the children array\<close>

lemma children_loop_exit: "\<not> i < e \<Longrightarrow> children_loop s i e fc = None"
  by (subst children_loop.simps) simp

lemma children_loop_comma:
  "i < e \<Longrightarrow> char_at s i = Some (CHR '','') \<Longrightarrow> children_loop s i e fc = children_loop s (i + 1) e True"
  by (subst children_loop.simps) simp

lemma children_loop_found:
  "i < e \<Longrightarrow> char_at s i = Some (CHR ''['') \<Longrightarrow> fc \<Longrightarrow> children_loop s i e fc = Some i"
  by (subst children_loop.simps) simp

lemma substring_dots:
  assumes "substring s i (i + 3) = ''...''"
  shows "char_at s i = Some (CHR ''.'') \<and> char_at s (i + 1) = Some (CHR ''.'')
         \<and> char_at s (i + 2) = Some (CHR ''.'')"
proof -
  from assms have t: "take 3 (drop i s) = ''...''" unfolding substring_def by simp
  then have "length (take 3 (drop i s)) = 3" by simp
  then have len: "i + 3 \<le> length s" by simp
  have "\<And>n. n < 3 \<Longrightarrow> s ! (i + n) = ''...'' ! n"
  proof -
    fix n :: nat assume n: "n < 3"
    have "take 3 (drop i s) ! n = s ! (i + n)" using n len by simp
    with t show "s ! (i + n) = ''...'' ! n" by simp
  qed
  from this[of 0] this[of 1] this[of 2] len show ?thesis
    unfolding char_at_def by (simp add: numeral_2_eq_2)
qed

lemma children_loop_spread:
  assumes "i < e" "substring s i (i + 3) = ''...''"
  shows "children_loop s i e fc = children_loop s (i + 3) e fc"
proof -
  from substring_dots[OF assms(2)] have c: "char_at s i = Some (CHR ''.'')" by simp
  have ns: "\<not> is_space (CHR ''.'')" by (simp add: is_space_def)
  show ?thesis
    using assms c ns by (subst children_loop.simps) simp
qed

lemma children_loop_other:
  assumes "i < e" "char_at s i \<noteq> Some (CHR '','')" "\<not> (char_at s i = Some (CHR ''['') \<and> fc)"
    "substring s i (i + 3) \<noteq> ''...''"
  shows "children_loop s i e fc = children_loop s (i + 1) e fc"
  using assms by (subst children_loop.simps) auto

lemma first_array_exit: "\<not> i < e \<Longrightarrow> \<not> first_array s i e fc k"
  unfolding first_array_def by auto

lemma comma_seen_comma:
  assumes "char_at s i = Some (CHR '','')" "i < k"
  shows "comma_seen s i fc k"
  unfolding comma_seen_def using assms by auto

lemma comma_seen_step:
  assumes "char_at s i \<noteq> Some (CHR '','')" 
  shows "comma_seen s i fc k \<longleftrightarrow> comma_seen s (i + 1) fc k"
proof -
  have "(\<exists>c. i \<le> c \<and> c < k \<and> char_at s c = Some (CHR '','')) \<longleftrightarrow>
        (\<exists>c. i + 1 \<le> c \<and> c < k \<and> char_at s c = Some (CHR '',''))"
    using assms by (metis Suc_eq_plus1 Suc_leI le_neq_implies_less add_leD1)
  then show ?thesis unfolding comma_seen_def by simp
qed

lemma first_array_comma:
  assumes "char_at s i = Some (CHR '','')"
  shows "first_array s i e fc k \<longleftrightarrow> first_array s (i + 1) e True k"
proof
  assume a: "first_array s i e fc k"
  then have "k \<noteq> i" using assms unfolding first_array_def by auto
  with a have ik: "i + 1 \<le> k" unfolding first_array_def by auto
  have "\<forall>m. i + 1 \<le> m \<and> m < k \<longrightarrow> char_at s m \<noteq> Some (CHR ''['')"
  proof (intro allI impI)
    fix m assume m: "i + 1 \<le> m \<and> m < k"
    then have "comma_seen s i fc m" using comma_seen_comma[OF assms, of m fc] by simp
    with a m show "char_at s m \<noteq> Some (CHR ''['')" unfolding first_array_def by auto
  qed
  with a ik show "first_array s (i + 1) e True k"
    unfolding first_array_def comma_seen_def by auto
next
  assume a: "first_array s (i + 1) e True k"
  then have ik: "i < k" unfolding first_array_def by auto
  have "\<forall>m. i \<le> m \<and> m < k \<longrightarrow> char_at s m \<noteq> Some (CHR ''['')"
  proof (intro allI impI)
    fix m assume m: "i \<le> m \<and> m < k"
    show "char_at s m \<noteq> Some (CHR ''['')"
    proof (cases "m = i")
      case True
      with assms show ?thesis by simp
    next
      case False
      with m have "i + 1 \<le> m" by simp
      with a m show ?thesis unfolding first_array_def comma_seen_def by auto
    qed
  qed
  with a ik comma_seen_comma[OF assms ik] show "first_array s i e fc k"
    unfolding first_array_def by auto
qed

lemma first_array_found:
  assumes "i < e" "char_at s i = Some (CHR ''['')" "fc"
  shows "first_array s i e fc k \<longleftrightarrow> k = i"
proof
  assume a: "first_array s i e fc k"
  show "k = i"
  proof (rule ccontr)
    assume "k \<noteq> i"
    with a have "i < k" unfolding first_array_def by auto
    moreover have "comma_seen s i fc i" using assms(3) unfolding comma_seen_def by simp
    ultimately show False using a assms(2) unfolding first_array_def by auto
  qed
next
  assume "k = i"
  with assms show "first_array s i e fc k"
    unfolding first_array_def comma_seen_def by auto
qed

lemma first_array_step:
  assumes "char_at s i \<noteq> Some (CHR '','')" "\<not> (char_at s i = Some (CHR ''['') \<and> fc)"
  shows "first_array s i e fc k \<longleftrightarrow> first_array s (i + 1) e fc k"
proof
  assume a: "first_array s i e fc k"
  have "k \<noteq> i"
  proof
    assume "k = i"
    with a have "char_at s i = Some (CHR ''['') \<and> comma_seen s i fc i"
      unfolding first_array_def by auto
    with assms(2) show False unfolding comma_seen_def by auto
  qed
  with a have ik: "i + 1 \<le> k" unfolding first_array_def by auto
  with a show "first_array s (i + 1) e fc k"
    unfolding first_array_def comma_seen_step[OF assms(1)] by auto
next
  assume a: "first_array s (i + 1) e fc k"
  have "\<forall>m. i \<le> m \<and> m < k \<and> char_at s m = Some (CHR ''['') \<longrightarrow> \<not> comma_seen s (i + 1) fc m"
  proof (intro allI impI)
    fix m assume m: "i \<le> m \<and> m < k \<and> char_at s m = Some (CHR ''['')"
    show "\<not> comma_seen s (i + 1) fc m"
    proof (cases "m = i")
      case True
      with m assms(2) have "\<not> fc" by simp
      with True show ?thesis unfolding comma_seen_def by auto
    next
      case False
      with m have "i + 1 \<le> m" by simp
      with a m show ?thesis unfolding first_array_def by auto
    qed
  qed
  with a show "first_array s i e fc k"
    unfolding first_array_def comma_seen_step[OF assms(1)] by auto
qed

lemma first_array_spread:
  assumes "substring s i (i + 3) = ''...''"
  shows "first_array s i e fc k \<longleftrightarrow> first_array s (i + 3) e fc k"
proof -
  note d = substring_dots[OF assms]
  have "first_array s i e fc k \<longleftrightarrow> first_array s (i + 1) e fc k"
    using d by (intro first_array_step) simp_all
  also have "\<dots> \<longleftrightarrow> first_array s (i + 1 + 1) e fc k"
    using d by (intro first_array_step) simp_all
  also have "\<dots> \<longleftrightarrow> first_array s (i + 1 + 1 + 1) e fc k"
    using d by (intro first_array_step) (simp_all add: add.assoc)
  also have "i + 1 + 1 + 1 = i + 3" by simp
  finally show ?thesis .
qed

lemma children_loop_first_array:
  "children_loop s i e fc = Some k \<longleftrightarrow> first_array s i e fc k"
proof (induction s i e fc rule: children_loop.induct)
  case (1 s i e fc)
  show ?case
  proof (cases "i < e")
    case False
    then show ?thesis using children_loop_exit first_array_exit by simp
  next
    case lt: True
    show ?thesis
    proof (cases "char_at s i = Some (CHR '','')")
      case True
      then show ?thesis
        using "1.IH"(1)[OF lt True] children_loop_comma[OF lt True] first_array_comma[OF True]
        by simp
    next
      case nc: False
      show ?thesis
      proof (cases "char_at s i = Some (CHR ''['') \<and> fc")
        case True
        then show ?thesis
          using children_loop_found[OF lt, of s fc] first_array_found[OF lt, of s fc k] by auto
      next
        case nf: False
        show ?thesis
        proof (cases "substring s i (i + 3) = ''...''")
          case True
          from substring_dots[OF True] have dot: "char_at s i = Some (CHR ''.'')" by simp
          have ns: "\<not> (case char_at s i of None \<Rightarrow> False | Some c \<Rightarrow> is_space c) \<and> char_at s i \<noteq> Some (CHR '','')"
            using dot by (simp add: is_space_def)
          show ?thesis
            using "1.IH"(2)[OF lt nc nf ns True] children_loop_spread[OF lt True]
              first_array_spread[OF True] by simp
        next
          case nd: False
          have step: "children_loop s i e fc = children_loop s (i + 1) e fc"
            using children_loop_other[OF lt nc nf nd] .
          have fa: "first_array s i e fc k \<longleftrightarrow> first_array s (i + 1) e fc k"
            using first_array_step[OF nc nf] .
          show ?thesis
          proof (cases "\<not> (case char_at s i of None \<Rightarrow> False | Some c \<Rightarrow> is_space c) \<and> char_at s i \<noteq> Some (CHR '','')")
            case True
            show ?thesis
              using "1.IH"(3)[OF lt nc nf True nd] step fa by simp
          next
            case False
            show ?thesis
              using "1.IH"(4)[OF lt nc nf False] step fa by simp
          qed
        qed
      qed
    qed
  qed
qed

subsection \<open>The records of the traversal\<close>

lemma traverse_nodes:
  "r \<in> set (traverse s ts i) \<Longrightarrow> i < length ts \<Longrightarrow>
   \<exists>n. n < length ts \<and> type (ts ! n) \<noteq> Prefix \<and> r = route_info s ts n"
proof (induction s ts i rule: traverse.induct)
  case (1 s ts i)
  from "1.prems"(1) have "(type (ts ! i) \<noteq> Prefix \<and> r = route_info s ts i) \<or>
      (\<exists>c \<in> set (children_of ts i). r \<in> set (traverse s ts c))"
    by (subst (asm) traverse.simps) (auto split: if_splits)
  then show ?case
  proof
    assume "type (ts ! i) \<noteq> Prefix \<and> r = route_info s ts i"
    with "1.prems"(2) show ?thesis by blast
  next
    assume "\<exists>c \<in> set (children_of ts i). r \<in> set (traverse s ts c)"
    then obtain c where c: "c \<in> set (children_of ts i)" "r \<in> set (traverse s ts c)" by blast
    from c(1) have "c < length ts" using children_of_bounds by blast
    with c show ?thesis using "1.IH" by blast
  qed
qed

lemma parseRoutesFile_nodes:
  assumes "r \<in> set (parseRoutesFile s)"
  shows "\<exists>n. n < length (parseRouteTokens s) \<and> type (parseRouteTokens s ! n) \<noteq> Prefix \<and>
             r = route_info s (parseRouteTokens s) n"
proof -
  from assms obtain i where "i \<in> set (buildTree (parseRouteTokens s))"
      "r \<in> set (traverse s (parseRouteTokens s) i)"
    unfolding parseRoutesFile_def by (auto simp: Let_def)
  moreover from this(1) have "i < length (parseRouteTokens s)"
    unfolding buildTree_filter by simp
  ultimately show ?thesis using traverse_nodes by blast
qed

lemma route_info_fullPath: "fullPath (route_info s ts n) = calculateFullPath ts n"
  unfolding route_info_def calculateFullPath_def by (simp add: Let_def)

subsection \<open>The matches of a pattern\<close>

lemma keyword_word: "c \<in> set (keyword ty) \<Longrightarrow> is_word c"
  by (cases ty) (auto simp: is_word_def)

lemma keyword_nonempty: "keyword ty \<noteq> []"
  by (cases ty) auto

lemma is_space_code: "is_space c \<Longrightarrow> (of_char c :: nat) \<in> {9, 10, 11, 12, 13, 32, 160}"
  unfolding is_space_def by auto

lemma word_not_space: 
  assumes "is_word c" shows "\<not> is_space c"
proof
  assume "is_space c"
  then have "(of_char c :: nat) \<in> {9, 10, 11, 12, 13, 32, 160}" by (rule is_space_code)
  moreover from assms have "(48 \<le> (of_char c :: nat) \<and> (of_char c :: nat) \<le> 57) \<or> (65 \<le> (of_char c :: nat) \<and> (of_char c :: nat) \<le> 90) \<or> (of_char c :: nat) = 95 \<or> (97 \<le> (of_char c :: nat) \<and> (of_char c :: nat) \<le> 122)"
    unfolding is_word_def Let_def .
  ultimately show False by auto
qed

lemma word_not_paren: "is_word c \<Longrightarrow> c \<noteq> CHR ''(''"
proof
  assume "is_word c" "c = CHR ''(''"
  then have "is_word (CHR ''('')" by simp
  then show False unfolding is_word_def Let_def by simp
qed

lemma skip_space_spaces: "i \<le> m \<Longrightarrow> m < skip_space s i \<Longrightarrow> is_space (s ! m)"
proof (induction s i rule: skip_space.induct)
  case (1 s i)
  show ?case
  proof (cases "i < length s \<and> is_space (s ! i)")
    case True
    then have eq: "skip_space s i = skip_space s (i + 1)"
      by (subst skip_space.simps) simp
    show ?thesis
    proof (cases "m = i")
      case True
      with \<open>i < length s \<and> is_space (s ! i)\<close> show ?thesis by simp
    next
      case False
      with "1.prems" eq have "i + 1 \<le> m" "m < skip_space s (i + 1)" by simp_all
      with "1.IH" True show ?thesis by simp
    qed
  next
    case False
    then have "skip_space s i = i" by (subst skip_space.simps) auto
    with "1.prems" show ?thesis by simp
  qed
qed

lemma substring_nth:
  assumes "substring s i (i + length kw) = kw" "m < length kw"
  shows "i + m < length s \<and> s ! (i + m) = kw ! m"
proof -
  from assms(1) have t: "take (length kw) (drop i s) = kw" unfolding substring_def by simp
  then have "length (take (length kw) (drop i s)) = length kw" by simp
  then have len: "i + length kw \<le> length s" using assms(2) by (simp add: min_def split: if_splits)
  have "take (length kw) (drop i s) ! m = s ! (i + m)" using assms(2) len by simp
  with t len assms(2) show ?thesis by simp
qed

lemma match_at_Some:
  assumes "match_at kw s i = Some e"
  shows "(i = 0 \<or> \<not> is_word (s ! (i - 1))) \<and> substring s i (i + length kw) = kw \<and>
         e = skip_space s (i + length kw) + 1 \<and> skip_space s (i + length kw) < length s \<and>
         s ! (skip_space s (i + length kw)) = CHR ''(''"
  using assms unfolding match_at_def by (auto simp: Let_def split: if_splits)

lemma no_overlap:
  assumes m: "match_at kw s i = Some e" and lt: "i < i'" "i' < e"
    and kw: "kw \<noteq> []" "\<And>c. c \<in> set kw \<Longrightarrow> is_word c"
  shows "match_at kw s i' = None"
proof (rule ccontr)
  assume "match_at kw s i' \<noteq> None"
  then obtain e' where m': "match_at kw s i' = Some e'" by auto
  note a = match_at_Some[OF m] and a' = match_at_Some[OF m']
  define j where "j = skip_space s (i + length kw)"
  have e: "e = j + 1" using a j_def by simp
  have "0 < length kw" using kw(1) by simp
  from substring_nth[of s i' kw 0] a' this have first: "s ! i' = kw ! 0" by simp
  have w: "is_word (s ! i')" using first kw \<open>0 < length kw\<close> by (metis nth_mem)
  show False
  proof (cases "i' \<le> i + length kw")
    case True
    define m where "m = i' - 1 - i"
    have "m < length kw" "i + m = i' - 1" using True lt(1) unfolding m_def by auto
    with substring_nth[of s i kw m] a have "s ! (i' - 1) = kw ! m" by simp
    with \<open>m < length kw\<close> kw(2) have "is_word (s ! (i' - 1))" by (metis nth_mem)
    moreover have "i' \<noteq> 0" using lt(1) by simp
    ultimately show False using a' by simp
  next
    case False
    then have ge: "i + length kw \<le> i'" by simp
    show False
    proof (cases "i' < j")
      case True
      with ge have "is_space (s ! i')" unfolding j_def by (intro skip_space_spaces) simp_all
      with w word_not_space show False by blast
    next
      case False
      with lt(2) e have "i' = j" by simp
      with a j_def have "s ! i' = CHR ''(''" by simp
      with w word_not_paren show False by blast
    qed
  qed
qed

lemma all_from_Suc:
  assumes "P i"
  shows "(\<forall>m::nat. i \<le> m \<and> m < n \<longrightarrow> P m) \<longleftrightarrow> (\<forall>m. i + 1 \<le> m \<and> m < n \<longrightarrow> P m)"
proof
  assume b: "\<forall>m. i \<le> m \<and> m < n \<longrightarrow> P m"
  show "\<forall>m. i + 1 \<le> m \<and> m < n \<longrightarrow> P m"
  proof (intro allI impI)
    fix m assume "i + 1 \<le> m \<and> m < n"
    then have "i \<le> m \<and> m < n" by simp
    with b show "P m" by blast
  qed
next
  assume a: "\<forall>m. i + 1 \<le> m \<and> m < n \<longrightarrow> P m"
  show "\<forall>m. i \<le> m \<and> m < n \<longrightarrow> P m"
  proof (intro allI impI)
    fix m assume m: "i \<le> m \<and> m < n"
    show "P m"
    proof (cases "m = i")
      case True
      with assms show ?thesis by simp
    next
      case False
      with m have "i + 1 \<le> m \<and> m < n" by simp
      with a show ?thesis by blast
    qed
  qed
qed

lemma exec_from_None:
  "exec_from kw s i = None \<longleftrightarrow> (\<forall>m. i \<le> m \<and> m < length s \<longrightarrow> match_at kw s m = None)"
proof (induction kw s i rule: exec_from.induct)
  case (1 kw s i)
  show ?case
  proof (cases "i < length s")
    case False
    then show ?thesis by (subst exec_from.simps) auto
  next
    case lt: True
    show ?thesis
    proof (cases "match_at kw s i")
      case (Some e)
      with lt have "exec_from kw s i = Some (i, e)" by (subst exec_from.simps) simp
      with Some lt show ?thesis by auto
    next
      case None
      with lt have "exec_from kw s i = exec_from kw s (i + 1)" by (subst exec_from.simps) simp
      moreover have "(\<forall>m. i \<le> m \<and> m < length s \<longrightarrow> match_at kw s m = None) \<longleftrightarrow>
          (\<forall>m. i + 1 \<le> m \<and> m < length s \<longrightarrow> match_at kw s m = None)"
        using None by (rule all_from_Suc)
      ultimately show ?thesis using "1.IH"[OF lt None] by simp
    qed
  qed
qed

lemma exec_from_Some:
  "exec_from kw s i = Some (m, e) \<longleftrightarrow>
     i \<le> m \<and> m < length s \<and> match_at kw s m = Some e \<and>
     (\<forall>m'. i \<le> m' \<and> m' < m \<longrightarrow> match_at kw s m' = None)"
proof (induction kw s i rule: exec_from.induct)
  case (1 kw s i)
  show ?case
  proof (cases "i < length s")
    case False
    then show ?thesis by (subst exec_from.simps) auto
  next
    case lt: True
    show ?thesis
    proof (cases "match_at kw s i")
      case (Some e')
      with lt have ex: "exec_from kw s i = Some (i, e')" by (subst exec_from.simps) simp
      show ?thesis
      proof
        assume "exec_from kw s i = Some (m, e)"
        with ex Some lt show "i \<le> m \<and> m < length s \<and> match_at kw s m = Some e \<and>
          (\<forall>m'. i \<le> m' \<and> m' < m \<longrightarrow> match_at kw s m' = None)" by auto
      next
        assume r: "i \<le> m \<and> m < length s \<and> match_at kw s m = Some e \<and>
          (\<forall>m'. i \<le> m' \<and> m' < m \<longrightarrow> match_at kw s m' = None)"
        have "m = i"
        proof (rule ccontr)
          assume "m \<noteq> i"
          with r have "i < m" by simp
          with r have "match_at kw s i = None" by simp
          with Some show False by simp
        qed
        with r Some ex show "exec_from kw s i = Some (m, e)" by simp
      qed
    next
      case None
      with lt have ex: "exec_from kw s i = exec_from kw s (i + 1)" by (subst exec_from.simps) simp
      have "m \<noteq> i" if "match_at kw s m = Some e"
        using that None by auto
      then have "(i \<le> m \<and> m < length s \<and> match_at kw s m = Some e \<and>
          (\<forall>m'. i \<le> m' \<and> m' < m \<longrightarrow> match_at kw s m' = None)) \<longleftrightarrow>
          (i + 1 \<le> m \<and> m < length s \<and> match_at kw s m = Some e \<and>
          (\<forall>m'. i + 1 \<le> m' \<and> m' < m \<longrightarrow> match_at kw s m' = None))"
        using all_from_Suc[of "\<lambda>m'. match_at kw s m' = None" i m, OF None] by auto
      then show ?thesis using "1.IH"[OF lt None] ex by simp
    qed
  qed
qed

lemma scan_loop_None:
  "exec_from (keyword ty) s li = None \<Longrightarrow> scan_loop ty s li toks = (toks, 0)"
  by (subst scan_loop.simps) (simp add: regex_exec_def)

lemma scan_loop_Some:
  "exec_from (keyword ty) s li = Some (m, e) \<Longrightarrow>
   scan_loop ty s li toks =
     scan_loop ty s e (case parse_call ty s m of None \<Rightarrow> toks | Some token \<Rightarrow> toks @ [token])"
  by (subst scan_loop.simps) (simp add: regex_exec_def)

lemma scan_loop_lastIndex: "snd (scan_loop ty s li toks) = 0"
proof (induction "length s - li" arbitrary: li toks rule: less_induct)
  case less
  show ?case
  proof (cases "exec_from (keyword ty) s li")
    case None
    then show ?thesis by (simp add: scan_loop_None)
  next
    case (Some p)
    obtain m e where p: "p = (m, e)" by (cases p)
    with Some have ex: "exec_from (keyword ty) s li = Some (m, e)" by simp
    from exec_from_bounds[OF ex] have "length s - e < length s - li" by arith
    from less[OF this] show ?thesis by (simp add: scan_loop_Some[OF ex])
  qed
qed

lemma scan_loop_tokens:
  "set (fst (scan_loop ty s li toks)) =
     set toks \<union> {tok. \<exists>m. li \<le> m \<and> occurrence ty s m \<and> parse_call ty s m = Some tok}"
proof (induction "length s - li" arbitrary: li toks rule: less_induct)
  case less
  show ?case
  proof (cases "exec_from (keyword ty) s li")
    case None
    then have "\<forall>m. li \<le> m \<and> m < length s \<longrightarrow> match_at (keyword ty) s m = None"
      by (simp add: exec_from_None)
    then have e: "{tok. \<exists>m. li \<le> m \<and> occurrence ty s m \<and> parse_call ty s m = Some tok} = {}"
      unfolding occurrence_def by auto
    have f: "fst (scan_loop ty s li toks) = toks"
      using None by (simp add: scan_loop_None)
    show ?thesis unfolding e f by simp
  next
    case (Some p)
    obtain m e where p: "p = (m, e)" by (cases p)
    with Some have ex: "exec_from (keyword ty) s li = Some (m, e)" by simp
    then have r: "li \<le> m" "m < length s" "match_at (keyword ty) s m = Some e"
      "\<forall>m'. li \<le> m' \<and> m' < m \<longrightarrow> match_at (keyword ty) s m' = None"
      by (simp_all add: exec_from_Some)
    from exec_from_bounds[OF ex] have b: "m < e" "e \<le> length s" and d: "length s - e < length s - li"
      by arith+
    define toks' where "toks' = (case parse_call ty s m of None \<Rightarrow> toks | Some token \<Rightarrow> toks @ [token])"
    have occ: "\<And>m'. li \<le> m' \<and> occurrence ty s m' \<longleftrightarrow> m' = m \<or> (e \<le> m' \<and> occurrence ty s m')"
    proof -
      fix m'
      show "li \<le> m' \<and> occurrence ty s m' \<longleftrightarrow> m' = m \<or> (e \<le> m' \<and> occurrence ty s m')"
      proof
        assume a: "li \<le> m' \<and> occurrence ty s m'"
        show "m' = m \<or> (e \<le> m' \<and> occurrence ty s m')"
        proof (rule ccontr)
          assume n: "\<not> (m' = m \<or> (e \<le> m' \<and> occurrence ty s m'))"
          with a have "m' \<noteq> m" "m' < e" by auto
          then consider "m' < m" | "m < m'" by arith
          then show False
          proof cases
            case 1
            with a r(4) show False unfolding occurrence_def by auto
          next
            case 2
            from no_overlap[OF r(3) 2 \<open>m' < e\<close> keyword_nonempty keyword_word] a
            show False unfolding occurrence_def by simp
          qed
        qed
      next
        assume "m' = m \<or> (e \<le> m' \<and> occurrence ty s m')"
        then show "li \<le> m' \<and> occurrence ty s m'"
          using r b unfolding occurrence_def by auto
      qed
    qed
    have "set (fst (scan_loop ty s li toks)) = set (fst (scan_loop ty s e toks'))"
      unfolding toks'_def by (simp add: scan_loop_Some[OF ex])
    also have "\<dots> = set toks' \<union> {tok. \<exists>m'. e \<le> m' \<and> occurrence ty s m' \<and> parse_call ty s m' = Some tok}"
      using less[OF d] .
    also have "\<dots> = set toks \<union> {tok. \<exists>m'. li \<le> m' \<and> occurrence ty s m' \<and> parse_call ty s m' = Some tok}"
    proof -
      have t: "set toks' = set toks \<union> {tok. parse_call ty s m = Some tok}"
        unfolding toks'_def by (auto split: option.splits)
      have "{tok. \<exists>m'. li \<le> m' \<and> occurrence ty s m' \<and> parse_call ty s m' = Some tok}
        = {tok. parse_call ty s m = Some tok} \<union>
          {tok. \<exists>m'. e \<le> m' \<and> occurrence ty s m' \<and> parse_call ty s m' = Some tok}"
        (is "?A = ?B \<union> ?C")
      proof (intro set_eqI iffI)
        fix tok assume "tok \<in> ?A"
        then obtain m' where m': "li \<le> m' \<and> occurrence ty s m'" "parse_call ty s m' = Some tok"
          by blast
        from m'(1) occ[of m'] have "m' = m \<or> (e \<le> m' \<and> occurrence ty s m')" by simp
        then show "tok \<in> ?B \<union> ?C"
        proof
          assume "m' = m"
          with m'(2) show ?thesis by simp
        next
          assume "e \<le> m' \<and> occurrence ty s m'"
          with m'(2) have "tok \<in> ?C" by blast
          then show ?thesis by simp
        qed
      next
        fix tok assume "tok \<in> ?B \<union> ?C"
        then consider "parse_call ty s m = Some tok"
          | m' where "e \<le> m' \<and> occurrence ty s m'" "parse_call ty s m' = Some tok"
          by blast
        then show "tok \<in> ?A"
        proof cases
          case 1
          from occ[of m] have "li \<le> m \<and> occurrence ty s m" by simp
          with 1 show ?thesis by blast
        next
          case 2
          from 2(1) occ[of m'] have "li \<le> m' \<and> occurrence ty s m'" by simp
          with 2(2) show ?thesis by blast
        qed
      qed
      with t show ?thesis by (simp add: Un_assoc)
    qed
    finally show ?thesis .
  qed
qed

lemma parseRouteTokens_set:
  "set (parseRouteTokens s) = {tok. \<exists>ty m. occurrence ty s m \<and> parse_call ty s m = Some tok}"
proof -
  define T where "T = (\<lambda>ty. {tok. \<exists>m. occurrence ty s m \<and> parse_call ty s m = Some tok})"
  have one: "\<And>ty toks. set (fst (scan_loop ty s 0 toks)) = set toks \<union> T ty"
    unfolding T_def by (simp add: scan_loop_tokens)
  have "set (parseRouteTokens s) = T Route \<union> T Index \<union> T Layout \<union> T Prefix"
    unfolding parseRouteTokens_def patterns_def by (simp add: one)
  also have "\<dots> = (\<Union>ty. T ty)"
  proof
    show "T Route \<union> T Index \<union> T Layout \<union> T Prefix \<subseteq> (\<Union>ty. T ty)" by blast
    show "(\<Union>ty. T ty) \<subseteq> T Route \<union> T Index \<union> T Layout \<union> T Prefix"
    proof
      fix x assume "x \<in> (\<Union>ty. T ty)"
      then obtain ty where "x \<in> T ty" by blast
      then show "x \<in> T Route \<union> T Index \<union> T Layout \<union> T Prefix"
        by (cases ty) simp_all
    qed
  qed
  also have "\<dots> = {tok. \<exists>ty m. occurrence ty s m \<and> parse_call ty s m = Some tok}"
    unfolding T_def by blast
  finally show ?thesis .
qed

subsection \<open>The body of the scanning loop\<close>

lemma indexOf_Some:
  "indexOf s c i = Some k \<longleftrightarrow>
     i \<le> k \<and> k < length s \<and> s ! k = c \<and> (\<forall>m. i \<le> m \<and> m < k \<longrightarrow> s ! m \<noteq> c)"
proof (induction s c i rule: indexOf.induct)
  case (1 s c i)
  show ?case
  proof (cases "i < length s")
    case False
    then show ?thesis by (subst indexOf.simps) auto
  next
    case lt: True
    show ?thesis
    proof (cases "s ! i = c")
      case True
      with lt have ex: "indexOf s c i = Some i" by (subst indexOf.simps) simp
      show ?thesis
      proof
        assume "indexOf s c i = Some k"
        with ex True lt show "i \<le> k \<and> k < length s \<and> s ! k = c \<and> (\<forall>m. i \<le> m \<and> m < k \<longrightarrow> s ! m \<noteq> c)"
          by auto
      next
        assume r: "i \<le> k \<and> k < length s \<and> s ! k = c \<and> (\<forall>m. i \<le> m \<and> m < k \<longrightarrow> s ! m \<noteq> c)"
        have "k = i"
        proof (rule ccontr)
          assume "k \<noteq> i"
          with r have "i < k" by simp
          with r True show False by auto
        qed
        with ex show "indexOf s c i = Some k" by simp
      qed
    next
      case False
      with lt have ex: "indexOf s c i = indexOf s c (i + 1)" by (subst indexOf.simps) simp
      have "k \<noteq> i" if "s ! k = c" using that False by auto
      then have "(i \<le> k \<and> k < length s \<and> s ! k = c \<and> (\<forall>m. i \<le> m \<and> m < k \<longrightarrow> s ! m \<noteq> c)) \<longleftrightarrow>
          (i + 1 \<le> k \<and> k < length s \<and> s ! k = c \<and> (\<forall>m. i + 1 \<le> m \<and> m < k \<longrightarrow> s ! m \<noteq> c))"
        using all_from_Suc[of "\<lambda>m. s ! m \<noteq> c" i k, OF False] by auto
      then show ?thesis using "1.IH"[OF lt False] ex by simp
    qed
  qed
qed

lemma space_not_paren: "is_space c \<Longrightarrow> c \<noteq> CHR ''(''"
  unfolding is_space_def by auto

lemma occurrence_open:
  assumes "occurrence ty s m"
  shows "\<exists>k. indexOf s (CHR ''('') m = Some k \<and> m < k \<and> match_at (keyword ty) s m = Some (k + 1)"
proof -
  from assms obtain e where e: "match_at (keyword ty) s m = Some e"
    unfolding occurrence_def by auto
  note a = match_at_Some[OF e]
  define n where "n = length (keyword ty)"
  define j where "j = skip_space s (m + n)"
  have n: "0 < n" unfolding n_def using keyword_nonempty by simp
  have mj: "m + n \<le> j" unfolding j_def by (rule skip_space_ge)
  have j: "j < length s" "s ! j = CHR ''(''" "e = j + 1" using a unfolding j_def n_def by simp_all
  have "\<forall>i. m \<le> i \<and> i < j \<longrightarrow> s ! i \<noteq> CHR ''(''"
  proof (intro allI impI)
    fix i assume i: "m \<le> i \<and> i < j"
    show "s ! i \<noteq> CHR ''(''"
    proof (cases "i < m + n")
      case True
      define d where "d = i - m"
      have "d < length (keyword ty)" "m + d = i" using True i unfolding d_def n_def by auto
      with substring_nth[of s m "keyword ty" d] a have "s ! i = keyword ty ! d" by simp
      with \<open>d < length (keyword ty)\<close> have "is_word (s ! i)" using keyword_word by (metis nth_mem)
      then show ?thesis by (rule word_not_paren)
    next
      case False
      with i have "is_space (s ! i)" unfolding j_def by (intro skip_space_spaces) simp_all
      then show ?thesis by (rule space_not_paren)
    qed
  qed
  with j mj have "indexOf s (CHR ''('') m = Some j" unfolding indexOf_Some by simp
  with e j n mj show ?thesis by simp
qed

lemma skip_space_comma_ge: "i \<le> skip_space_comma s i"
proof (induction s i rule: skip_space_comma.induct)
  case (1 s i)
  show ?case
  proof (cases "i < length s \<and> (is_space (s ! i) \<or> s ! i = CHR '','')")
    case True
    then have "skip_space_comma s i = skip_space_comma s (i + 1)"
      by (subst skip_space_comma.simps) simp
    moreover have "i + 1 \<le> skip_space_comma s (i + 1)" using 1 True by simp
    ultimately show ?thesis by simp
  next
    case False
    then have "skip_space_comma s i = i" by (subst skip_space_comma.simps) auto
    then show ?thesis by simp
  qed
qed

lemma read_quoted_ge: "i \<le> fst (read_quoted s q i v)"
proof (induction s q i v rule: read_quoted.induct)
  case (1 s q i v)
  show ?case
  proof (cases "i < length s \<and> s ! i \<noteq> q")
    case False
    then have "read_quoted s q i v = (i, v)" by (subst read_quoted.simps) auto
    then show ?thesis by simp
  next
    case c: True
    show ?thesis
    proof (cases "s ! i = backslash \<and> i + 1 < length s")
      case True
      with c have "read_quoted s q i v = read_quoted s q (i + 2) (v @ [s ! (i + 1)])"
        by (subst read_quoted.simps) simp
      moreover have "i + 2 \<le> fst (read_quoted s q (i + 2) (v @ [s ! (i + 1)]))"
        using "1.IH"(1)[OF c True] .
      ultimately show ?thesis by simp
    next
      case False
      with c have "read_quoted s q i v = read_quoted s q (i + 1) (v @ [s ! i])"
        by (subst read_quoted.simps) auto
      moreover have "i + 1 \<le> fst (read_quoted s q (i + 1) (v @ [s ! i]))"
        using "1.IH"(2)[OF c False] .
      ultimately show ?thesis by simp
    qed
  qed
qed

lemma extractStringArg_end:
  assumes "extractStringArg s a = Some (v, e)"
  shows "a < e \<and> e \<le> length s"
proof -
  define i where "i = skip_space_comma s a"
  define r where "r = read_quoted s (s ! i) (i + 1) []"
  from assms have "fst r < length s \<and> e = fst r + 1"
    unfolding extractStringArg_def i_def r_def
    by (auto simp: Let_def split: if_splits prod.splits)
  moreover have "a \<le> i" unfolding i_def by (rule skip_space_comma_ge)
  moreover have "i + 1 \<le> fst r" unfolding r_def by (rule read_quoted_ge)
  ultimately show ?thesis by simp
qed

lemma findChildrenArray_bounds:
  "findChildrenArray s a e = Some k \<Longrightarrow> a \<le> k \<and> k < e"
  unfolding findChildrenArray_def children_loop_first_array first_array_def by simp

lemma make_token_fields:
  "type (make_token ty s m close p ap) = ty \<and> path (make_token ty s m close p ap) = p \<and>
   startIndex (make_token ty s m close p ap) = m \<and> endIndex (make_token ty s m close p ap) = close \<and>
   (hasChildren (make_token ty s m close p ap) \<longleftrightarrow> childrenStartIndex (make_token ty s m close p ap) \<noteq> None)"
  unfolding make_token_def by (simp add: Let_def)

lemma make_token_children:
  assumes "childrenStartIndex (make_token ty s m close p ap) = Some c"
  shows "ap \<le> c \<and> c < close"
proof -
  define af where "af = (if ty = Route \<or> ty = Layout \<or> ty = Index
                       then (case extractStringArg s ap of
                               Some (fileValue, fileEnd) \<Rightarrow> fileEnd
                             | None \<Rightarrow> ap)
                       else ap)"
  have af: "ap \<le> af"
  proof (cases "extractStringArg s ap")
    case None
    then show ?thesis unfolding af_def by simp
  next
    case (Some ve)
    obtain v e where "ve = (v, e)" by (cases ve)
    with Some extractStringArg_end[of s ap v e] show ?thesis unfolding af_def by simp
  qed
  from assms have "findChildrenArray s ap close = Some c \<or> findChildrenArray s af close = Some c"
    unfolding make_token_def af_def by (auto simp: Let_def split: if_splits)
  then show ?thesis
  proof
    assume "findChildrenArray s ap close = Some c"
    then show ?thesis using findChildrenArray_bounds by blast
  next
    assume "findChildrenArray s af close = Some c"
    then have "af \<le> c \<and> c < close" using findChildrenArray_bounds by blast
    with af show ?thesis by simp
  qed
qed

lemma parse_call_None:
  assumes "indexOf s (CHR ''('') m = Some k"
  shows "parse_call ty s m = None \<longleftrightarrow>
           findMatchingParen s k = None \<or> (hasPath ty \<and> extractStringArg s (k + 1) = None)"
  using assms unfolding parse_call_def findMatchingParen_def
  by (auto simp: Let_def split: option.splits)

lemma parse_call_Some:
  assumes "indexOf s (CHR ''('') m = Some k" "parse_call ty s m = Some tok"
  shows "type tok = ty \<and> startIndex tok = m \<and> findMatchingParen s k = Some (endIndex tok) \<and>
         (hasPath ty \<longrightarrow> (\<exists>e. extractStringArg s (k + 1) = Some (path tok, e))) \<and>
         (\<not> hasPath ty \<longrightarrow> path tok = []) \<and>
         (hasChildren tok \<longleftrightarrow> childrenStartIndex tok \<noteq> None) \<and>
         (\<forall>c. childrenStartIndex tok = Some c \<longrightarrow> k < c \<and> c < endIndex tok)"
proof -
  define pr where "pr = (if hasPath ty then extractStringArg s (k + 1) else Some ([], k + 1))"
  have pc: "parse_call ty s m = (case paren_from s (k + 1) of None \<Rightarrow> None
      | Some close \<Rightarrow> (case pr of None \<Rightarrow> None
          | Some (p, ap) \<Rightarrow> Some (make_token ty s m close p ap)))"
    using assms(1) unfolding parse_call_def pr_def by (auto simp: Let_def split: option.splits)
  from assms(2) pc obtain close where close: "paren_from s (k + 1) = Some close"
    by (cases "paren_from s (k + 1)") auto
  from assms(2) pc close obtain pa where pa: "pr = Some pa"
    by (cases pr) auto
  obtain p ap where pap: "pa = (p, ap)" by (cases pa)
  from assms(2) pc close pa pap have tok: "tok = make_token ty s m close p ap" by simp
  have ap: "k + 1 \<le> ap"
  proof (cases "hasPath ty")
    case True
    with pa pap have "extractStringArg s (k + 1) = Some (p, ap)" unfolding pr_def by simp
    from extractStringArg_end[OF this] show ?thesis by simp
  next
    case False
    with pa pap show ?thesis unfolding pr_def by simp
  qed
  have ch: "\<forall>c. childrenStartIndex tok = Some c \<longrightarrow> k < c \<and> c < endIndex tok"
  proof (intro allI impI)
    fix c assume "childrenStartIndex tok = Some c"
    with tok have "ap \<le> c \<and> c < close" using make_token_children by blast
    with ap tok show "k < c \<and> c < endIndex tok" by (simp add: make_token_fields)
  qed
  have "hasPath ty \<longrightarrow> (\<exists>e. extractStringArg s (k + 1) = Some (path tok, e))"
    using pa pap tok unfolding pr_def by (auto simp: make_token_fields)
  moreover have "\<not> hasPath ty \<longrightarrow> path tok = []"
    using pa pap tok unfolding pr_def by (auto simp: make_token_fields)
  moreover have "findMatchingParen s k = Some (endIndex tok)"
    using close tok unfolding findMatchingParen_def by (simp add: make_token_fields)
  ultimately show ?thesis using tok ch by (simp add: make_token_fields)
qed

subsection \<open>Strings without an end leave the parenthesis without a match\<close>

lemma paren_loop_exit: "\<not> (i < length s \<and> d > 0) \<Longrightarrow> paren_loop s i d = (i, d)"
  by (subst paren_loop.simps) auto

lemma paren_loop_open:
  "i < length s \<Longrightarrow> d > 0 \<Longrightarrow> s ! i = CHR ''('' \<Longrightarrow> paren_loop s i d = paren_loop s (i + 1) (d + 1)"
  by (subst paren_loop.simps) simp

lemma paren_loop_close:
  "i < length s \<Longrightarrow> d > 0 \<Longrightarrow> s ! i = CHR '')'' \<Longrightarrow> paren_loop s i d = paren_loop s (i + 1) (d - 1)"
  by (subst paren_loop.simps) simp

lemma paren_loop_quote:
  "i < length s \<Longrightarrow> d > 0 \<Longrightarrow> s ! i = dquote \<or> s ! i = squote \<Longrightarrow>
   paren_loop s i d = paren_loop s (skip_quoted s (s ! i) (i + 1) + 1) d"
  by (subst paren_loop.simps) (auto simp: dquote_def squote_def)

lemma paren_loop_other:
  "i < length s \<Longrightarrow> d > 0 \<Longrightarrow> s ! i \<noteq> CHR ''('' \<Longrightarrow> s ! i \<noteq> CHR '')'' \<Longrightarrow>
   s ! i \<noteq> dquote \<Longrightarrow> s ! i \<noteq> squote \<Longrightarrow> paren_loop s i d = paren_loop s (i + 1) d"
  by (subst paren_loop.simps) simp

lemma space_comma_plain:
  assumes "is_space c \<or> c = CHR '',''"
  shows "c \<noteq> CHR ''('' \<and> c \<noteq> CHR '')'' \<and> c \<noteq> dquote \<and> c \<noteq> squote"
  using assms unfolding is_space_def dquote_def squote_def by auto

lemma paren_loop_skip_space_comma:
  "d > 0 \<Longrightarrow> paren_loop s a d = paren_loop s (skip_space_comma s a) d"
proof (induction s a rule: skip_space_comma.induct)
  case (1 s i)
  show ?case
  proof (cases "i < length s \<and> (is_space (s ! i) \<or> s ! i = CHR '','')")
    case True
    then have sk: "skip_space_comma s i = skip_space_comma s (i + 1)"
      by (subst skip_space_comma.simps) simp
    from True space_comma_plain[of "s ! i"] have "paren_loop s i d = paren_loop s (i + 1) d"
      using "1.prems" by (intro paren_loop_other) simp_all
    also have "\<dots> = paren_loop s (skip_space_comma s (i + 1)) d"
      using "1.IH" True "1.prems" by simp
    finally show ?thesis using sk by simp
  next
    case False
    then have "skip_space_comma s i = i" by (subst skip_space_comma.simps) auto
    then show ?thesis by simp
  qed
qed

lemma read_quoted_skip_quoted:
  "(fst (read_quoted s q i v) < length s \<longrightarrow> skip_quoted s q i = fst (read_quoted s q i v)) \<and>
   (length s \<le> fst (read_quoted s q i v) \<longrightarrow> length s \<le> skip_quoted s q i)"
proof (induction s q i v rule: read_quoted.induct)
  case (1 s q i v)
  show ?case
  proof (cases "i < length s \<and> s ! i \<noteq> q")
    case False
    then have "read_quoted s q i v = (i, v)" by (subst read_quoted.simps) auto
    moreover from False have "skip_quoted s q i = i" by (subst skip_quoted.simps) auto
    ultimately show ?thesis by simp
  next
    case c: True
    show ?thesis
    proof (cases "s ! i = backslash")
      case bs: True
      with c have sk: "skip_quoted s q i = skip_quoted s q (i + 2)"
        by (subst skip_quoted.simps) simp
      show ?thesis
      proof (cases "i + 1 < length s")
        case True
        with c bs have "read_quoted s q i v = read_quoted s q (i + 2) (v @ [s ! (i + 1)])"
          by (subst read_quoted.simps) simp
        with "1.IH"(1)[OF c] bs True sk show ?thesis by simp
      next
        case False
        with c bs have rq: "read_quoted s q i v = read_quoted s q (i + 1) (v @ [s ! i])"
          by (subst read_quoted.simps) simp
        from False c have "\<not> (i + 1 < length s \<and> s ! (i + 1) \<noteq> q)" by simp
        then have "read_quoted s q (i + 1) (v @ [s ! i]) = (i + 1, v @ [s ! i])"
          by (subst read_quoted.simps) auto
        with rq have r: "fst (read_quoted s q i v) = i + 1" by simp
        have "i + 2 \<le> skip_quoted s q (i + 2)" by (rule skip_quoted_ge)
        with sk False c r show ?thesis by simp
      qed
    next
      case nb: False
      with c have sk: "skip_quoted s q i = skip_quoted s q (i + 1)"
        by (subst skip_quoted.simps) simp
      from c nb have "read_quoted s q i v = read_quoted s q (i + 1) (v @ [s ! i])"
        by (subst read_quoted.simps) simp
      moreover have "\<not> (s ! i = backslash \<and> i + 1 < length s)" using nb by simp
      ultimately show ?thesis using "1.IH"(2)[OF c] sk by simp
    qed
  qed
qed

lemma unterminated_paren_loop:
  assumes "unterminated s a" "d > 0"
  shows "snd (paren_loop s a d) = d"
proof -
  define i where "i = skip_space_comma s a"
  from assms(1) have i: "i < length s" "s ! i = dquote \<or> s ! i = squote"
    "length s \<le> fst (read_quoted s (s ! i) (i + 1) [])"
    unfolding unterminated_def i_def by (simp_all add: Let_def)
  define j where "j = skip_quoted s (s ! i) (i + 1)"
  have j: "length s \<le> j"
    using read_quoted_skip_quoted[of s "s ! i" "i + 1" "[]"] i(3) unfolding j_def by simp
  have "paren_loop s a d = paren_loop s i d"
    unfolding i_def using assms(2) by (rule paren_loop_skip_space_comma)
  also have "\<dots> = paren_loop s (j + 1) d"
    unfolding j_def using i assms(2) by (intro paren_loop_quote) simp_all
  also have "\<dots> = (j + 1, d)"
    using j by (intro paren_loop_exit) simp
  finally show ?thesis by simp
qed

lemma unterminated_paren_from:
  assumes "unterminated s a"
  shows "paren_from s a = None"
  using unterminated_paren_loop[OF assms, of 1] unfolding paren_from_def
  by (auto simp: Let_def split: prod.splits)

lemma extractStringArg_paren_loop:
  assumes "extractStringArg s a = Some (v, e)" "d > 0"
  shows "paren_loop s a d = paren_loop s e d"
proof -
  define i where "i = skip_space_comma s a"
  define r where "r = read_quoted s (s ! i) (i + 1) []"
  from assms(1) have i: "i < length s" "s ! i = dquote \<or> s ! i = squote"
    "fst r < length s" "e = fst r + 1"
    unfolding extractStringArg_def i_def r_def
    by (auto simp: Let_def split: if_splits prod.splits)
  have j: "skip_quoted s (s ! i) (i + 1) = fst r"
    using read_quoted_skip_quoted[of s "s ! i" "i + 1" "[]"] i(3) unfolding r_def by simp
  have "paren_loop s a d = paren_loop s i d"
    unfolding i_def using assms(2) by (rule paren_loop_skip_space_comma)
  also have "\<dots> = paren_loop s (skip_quoted s (s ! i) (i + 1) + 1) d"
    using i assms(2) by (intro paren_loop_quote) simp_all
  finally show ?thesis using j i(4) by simp
qed

lemma second_unterminated_paren_from:
  assumes "extractStringArg s a = Some (v, e)" "unterminated s e"
  shows "paren_from s a = None"
proof -
  have "paren_loop s a 1 = paren_loop s e 1"
    using assms(1) by (rule extractStringArg_paren_loop) simp
  then have "paren_from s a = paren_from s e" unfolding paren_from_def by simp
  with unterminated_paren_from[OF assms(2)] show ?thesis by simp
qed

subsection \<open>Tokens and positions\<close>

lemma last_index_upto_bound: "last_index_upto s c n < int n"
  by (induction n) auto

lemma getColumnFromIndex_nonneg:
  assumes "m < length s" "s ! m \<noteq> newline"
  shows "0 \<le> getColumnFromIndex s m"
proof (cases m)
  case 0
  from assms have ne: "s \<noteq> []" by auto
  have "lastIndexOf s newline (int m - 1) = last_index_upto s newline (Suc 0)"
    using ne 0 unfolding lastIndexOf_def by simp
  also have "\<dots> = -1" using assms 0 by simp
  finally show ?thesis unfolding getColumnFromIndex_def using 0 by (simp add: Let_def)
next
  case (Suc k)
  from assms have ne: "s \<noteq> []" by auto
  have "min (nat (max (int m - 1) 0)) (length s - 1) = k" using Suc assms(1) by simp
  then have "lastIndexOf s newline (int m - 1) = last_index_upto s newline (Suc k)"
    using ne unfolding lastIndexOf_def by simp
  also have "\<dots> < int (Suc k)" by (rule last_index_upto_bound)
  finally show ?thesis unfolding getColumnFromIndex_def using Suc by (simp add: Let_def)
qed

lemma word_not_newline: "is_word c \<Longrightarrow> c \<noteq> newline"
proof
  assume "is_word c" "c = newline"
  then have "is_word (CHR 0x0A)" unfolding newline_def by simp
  then show False unfolding is_word_def Let_def by simp
qed

lemma occurrence_first_char:
  assumes "occurrence ty s m"
  shows "m < length s \<and> is_word (s ! m)"
proof -
  from assms obtain e where e: "match_at (keyword ty) s m = Some e"
    unfolding occurrence_def by auto
  have n: "0 < length (keyword ty)" using keyword_nonempty by simp
  from substring_nth[of s m "keyword ty" 0] match_at_Some[OF e] n
  have "s ! m = keyword ty ! 0" by simp
  with n have "is_word (s ! m)" using keyword_word by (metis nth_mem)
  with assms show ?thesis unfolding occurrence_def by simp
qed

lemma token_occurrence:
  assumes "t \<in> set (parseRouteTokens s)"
  shows "\<exists>k. occurrence (type t) s (startIndex t) \<and>
             indexOf s (CHR ''('') (startIndex t) = Some k \<and> startIndex t < k \<and>
             parse_call (type t) s (startIndex t) = Some t"
proof -
  from assms obtain ty m where tm: "occurrence ty s m" "parse_call ty s m = Some t"
    unfolding parseRouteTokens_set by blast
  from occurrence_open[OF tm(1)] obtain k where k: "indexOf s (CHR ''('') m = Some k" "m < k"
    by blast
  from parse_call_Some[OF k(1) tm(2)] have "type t = ty" "startIndex t = m" by simp_all
  with tm k show ?thesis by blast
qed

lemma token_children_inside:
  assumes "t \<in> set (parseRouteTokens s)" "hasChildren t"
  shows "\<exists>c. childrenStartIndex t = Some c \<and> startIndex t < c \<and> c < endIndex t"
proof -
  from token_occurrence[OF assms(1)] obtain k where k:
    "indexOf s (CHR ''('') (startIndex t) = Some k" "startIndex t < k"
    "parse_call (type t) s (startIndex t) = Some t" by blast
  note p = parse_call_Some[OF k(1) k(3)]
  from p assms(2) obtain c where c: "childrenStartIndex t = Some c" by auto
  with p have "k < c \<and> c < endIndex t" by simp
  with c k(2) show ?thesis by simp
qed

lemma record_position:
  assumes "r \<in> set (parseRoutesFile s)"
  shows "0 \<le> line r \<and> 0 \<le> startCharacter (range r) \<and> info_type r \<noteq> Prefix"
proof -
  define ts where "ts = parseRouteTokens s"
  from parseRoutesFile_nodes[OF assms] obtain n where n: "n < length ts"
    "type (ts ! n) \<noteq> Prefix" "r = route_info s ts n" unfolding ts_def by blast
  from n(1) have "ts ! n \<in> set (parseRouteTokens s)" unfolding ts_def by simp
  from token_occurrence[OF this] have "occurrence (type (ts ! n)) s (startIndex (ts ! n))" by blast
  from occurrence_first_char[OF this]
  have "startIndex (ts ! n) < length s" "s ! startIndex (ts ! n) \<noteq> newline"
    using word_not_newline by auto
  then have "0 \<le> getColumnFromIndex s (startIndex (ts ! n))"
    by (rule getColumnFromIndex_nonneg)
  with n show ?thesis
    unfolding route_info_def getLineFromIndex_def by (simp add: Let_def)
qed

subsection \<open>The loop of findMatchingParen and the scan of the specification\<close>

lemma drop_Cons_nth: "drop i s = c # cs \<Longrightarrow> i < length s \<and> s ! i = c \<and> drop (i + 1) s = cs"
  by (metis Cons_nth_drop_Suc Suc_eq_plus1 drop_eq_Nil list.distinct(1) list.inject not_le)

lemma skip_quoted_stop: "\<not> (i < length s \<and> s ! i \<noteq> q) \<Longrightarrow> skip_quoted s q i = i"
  by (subst skip_quoted.simps) auto

lemma skip_quoted_bs:
  "i < length s \<Longrightarrow> s ! i \<noteq> q \<Longrightarrow> s ! i = backslash \<Longrightarrow> skip_quoted s q i = skip_quoted s q (i + 2)"
  by (subst skip_quoted.simps) simp

lemma skip_quoted_plain:
  "i < length s \<Longrightarrow> s ! i \<noteq> q \<Longrightarrow> s ! i \<noteq> backslash \<Longrightarrow> skip_quoted s q i = skip_quoted s q (i + 1)"
  by (subst skip_quoted.simps) simp

lemma scan_refines:
  "(\<forall>i. drop i s = cs \<and> d > 0 \<longrightarrow>
      paren_result (paren_loop s i d) = map_option (\<lambda>n. i + n) (spec_scan cs d)) \<and>
   (\<forall>i. drop i s = cs \<and> d > 0 \<longrightarrow>
      paren_result (paren_loop s (skip_quoted s q i + 1) d) =
        map_option (\<lambda>n. i + n) (spec_quoted q cs d))"
proof (induction "length cs" arbitrary: cs d q rule: less_induct)
  case less
  have scan: "paren_result (paren_loop s i d') = map_option (\<lambda>n. i + n) (spec_scan cs' d')"
    if "length cs' < length cs" "drop i s = cs'" "d' > 0" for cs' i d'
    using less[OF that(1), of d'] that(2,3) by blast
  have quoted: "paren_result (paren_loop s (skip_quoted s q' i + 1) d') =
        map_option (\<lambda>n. i + n) (spec_quoted q' cs' d')"
    if "length cs' < length cs" "drop i s = cs'" "d' > 0" for cs' i d' q'
    using less[OF that(1), of d' q'] that(2,3) by blast
  have A: "paren_result (paren_loop s i d) = map_option (\<lambda>n. i + n) (spec_scan cs d)"
    if dr: "drop i s = cs" and d: "d > 0" for i
  proof (cases cs)
    case Nil
    with dr have "\<not> (i < length s \<and> d > 0)" by simp
    from paren_loop_exit[OF this] d Nil show ?thesis by (simp add: paren_result_def)
  next
    case (Cons c cs')
    from drop_Cons_nth[of i s c cs'] dr Cons
    have i: "i < length s" "s ! i = c" "drop (i + 1) s = cs'" by simp_all
    have len: "length cs' < length cs" using Cons by simp
    consider (op) "c = CHR ''(''" | (cl) "c = CHR '')''" | (qu) "c = dquote \<or> c = squote"
      | (ot) "c \<noteq> CHR ''(''" "c \<noteq> CHR '')''" "c \<noteq> dquote" "c \<noteq> squote" by blast
    then show ?thesis
    proof cases
      case op
      with i d have "paren_loop s i d = paren_loop s (i + 1) (d + 1)"
        by (intro paren_loop_open) simp_all
      with scan[OF len i(3), of "d + 1"] op Cons show ?thesis
        by (simp add: option.map_comp comp_def)
    next
      case cl
      with i d have pl: "paren_loop s i d = paren_loop s (i + 1) (d - 1)"
        by (intro paren_loop_close) simp_all
      show ?thesis
      proof (cases "d = 1")
        case True
        then have "paren_loop s (i + 1) (d - 1) = (i + 1, 0)"
          using paren_loop_exit[of "i + 1" s 0] by simp
        with pl True cl Cons show ?thesis by (simp add: paren_result_def)
      next
        case False
        with d have "d - 1 > 0" by simp
        from scan[OF len i(3) this] pl cl Cons False show ?thesis
          by (simp add: option.map_comp comp_def)
      qed
    next
      case qu
      with i d have "paren_loop s i d = paren_loop s (skip_quoted s c (i + 1) + 1) d"
        using paren_loop_quote[of i s d] by simp
      moreover have "c \<noteq> CHR ''(''" "c \<noteq> CHR '')''"
        using qu by (auto simp: dquote_def squote_def)
      ultimately show ?thesis
        using quoted[OF len i(3) d, of c] qu Cons by (auto simp: option.map_comp comp_def)
    next
      case ot
      with i d have "paren_loop s i d = paren_loop s (i + 1) d"
        by (intro paren_loop_other) simp_all
      with scan[OF len i(3) d] ot Cons show ?thesis
        by (simp add: option.map_comp comp_def)
    qed
  qed
  have B: "paren_result (paren_loop s (skip_quoted s q i + 1) d) =
        map_option (\<lambda>n. i + n) (spec_quoted q cs d)"
    if dr: "drop i s = cs" and d: "d > 0" for i
  proof (cases cs)
    case Nil
    with dr have ge: "length s \<le> i" by simp
    then have "skip_quoted s q i = i" by (intro skip_quoted_stop) simp
    moreover from ge have "paren_loop s (i + 1) d = (i + 1, d)"
      by (intro paren_loop_exit) simp
    ultimately show ?thesis using d Nil by (simp add: paren_result_def)
  next
    case (Cons c cs')
    from drop_Cons_nth[of i s c cs'] dr Cons
    have i: "i < length s" "s ! i = c" "drop (i + 1) s = cs'" by simp_all
    have len: "length cs' < length cs" using Cons by simp
    show ?thesis
    proof (cases "c = q")
      case True
      with i have sk: "skip_quoted s q i = i" by (intro skip_quoted_stop) simp
      have sp: "spec_quoted q cs d = map_option Suc (spec_scan cs' d)"
        using True Cons by (cases cs') simp_all
      from scan[OF len i(3) d] sk sp show ?thesis
        by (simp add: option.map_comp comp_def)
    next
      case nq: False
      show ?thesis
      proof (cases "c = backslash")
        case bs: True
        with i nq have sk: "skip_quoted s q i = skip_quoted s q (i + 2)"
          by (intro skip_quoted_bs) simp_all
        show ?thesis
        proof (cases cs')
          case Nil
          with i have ge: "length s \<le> i + 2" by simp
          then have "skip_quoted s q (i + 2) = i + 2" by (intro skip_quoted_stop) simp
          moreover from ge have "paren_loop s (i + 2 + 1) d = (i + 2 + 1, d)"
            by (intro paren_loop_exit) simp
          ultimately show ?thesis using sk d Nil Cons nq by (simp add: paren_result_def)
        next
          case c2: (Cons e cs'')
          from drop_Cons_nth[of "i + 1" s e cs''] i(3) c2
          have "drop (i + 1 + 1) s = cs''" by simp
          then have dr2: "drop (i + 2) s = cs''" by (simp add: add.assoc)
          have len2: "length cs'' < length cs" using Cons c2 by simp
          from quoted[OF len2 dr2 d, of q] sk Cons c2 nq bs show ?thesis
            by (simp add: option.map_comp comp_def add.assoc)
        qed
      next
        case nb: False
        with i nq have sk: "skip_quoted s q i = skip_quoted s q (i + 1)"
          by (intro skip_quoted_plain) simp_all
        have sp: "spec_quoted q cs d = map_option Suc (spec_quoted q cs' d)"
          using nq nb Cons by (cases cs') simp_all
        from quoted[OF len i(3) d, of q] sk sp show ?thesis
          by (simp add: option.map_comp comp_def)
      qed
    qed
  qed
  from A B show ?case by blast
qed

lemma findMatchingParen_spec: "findMatchingParen s k = spec_matching_paren s k"
proof -
  have "paren_from s (k + 1) = paren_result (paren_loop s (k + 1) 1)"
    unfolding paren_from_def paren_result_def by (simp add: Let_def split: prod.splits)
  also have "\<dots> = map_option (\<lambda>n. k + 1 + n) (spec_scan (drop (k + 1) s) 1)"
    using scan_refines[of s "drop (k + 1) s" 1] by simp
  finally show ?thesis unfolding findMatchingParen_def spec_matching_paren_def .
qed

lemma paren_loop_result:
  "d > 0 \<Longrightarrow> paren_loop s i d = (j, 0) \<Longrightarrow> i < j \<and> j \<le> length s \<and> s ! (j - 1) = CHR '')''"
proof (induction s i d rule: paren_loop.induct)
  case (1 s i d)
  show ?case
  proof (cases "i < length s")
    case False
    then have "paren_loop s i d = (i, d)" by (intro paren_loop_exit) simp
    with "1.prems" show ?thesis by simp
  next
    case lt: True
    have gd: "i < length s \<and> 0 < d" using lt "1.prems"(1) by simp
    consider (op) "s ! i = CHR ''(''" | (cl) "s ! i = CHR '')''" | (qu) "s ! i = dquote \<or> s ! i = squote"
      | (ot) "s ! i \<noteq> CHR ''(''" "s ! i \<noteq> CHR '')''" "s ! i \<noteq> dquote" "s ! i \<noteq> squote" by blast
    then show ?thesis
    proof cases
      case op
      with lt "1.prems" have "paren_loop s (i + 1) (d + 1) = (j, 0)"
        using paren_loop_open[of i s d] by simp
      with "1.IH"(1)[OF gd op] show ?thesis by simp
    next
      case cl
      then have no: "s ! i \<noteq> CHR ''(''" by simp
      from cl lt "1.prems" have pl: "paren_loop s (i + 1) (d - 1) = (j, 0)"
        using paren_loop_close[of i s d] by simp
      show ?thesis
      proof (cases "d = 1")
        case True
        then have "paren_loop s (i + 1) (d - 1) = (i + 1, 0)"
          using paren_loop_exit[of "i + 1" s 0] by simp
        with pl lt cl show ?thesis by simp
      next
        case False
        with "1.prems"(1) have "d - 1 > 0" by simp
        with "1.IH"(2)[OF gd no cl] pl show ?thesis by simp
      qed
    next
      case qu
      then have no: "s ! i \<noteq> CHR ''(''" "s ! i \<noteq> CHR '')''"
        by (auto simp: dquote_def squote_def)
      from qu lt "1.prems" have "paren_loop s (skip_quoted s (s ! i) (i + 1) + 1) d = (j, 0)"
        using paren_loop_quote[of i s d] by simp
      with "1.IH"(3)[OF gd no qu] "1.prems"(1)
      have "skip_quoted s (s ! i) (i + 1) + 1 < j \<and> j \<le> length s \<and> s ! (j - 1) = CHR '')''"
        by simp
      moreover have "i + 1 \<le> skip_quoted s (s ! i) (i + 1)" by (rule skip_quoted_ge)
      ultimately show ?thesis by simp
    next
      case ot
      with lt "1.prems" have "paren_loop s (i + 1) d = (j, 0)"
        using paren_loop_other[of i s d] by simp
      moreover have "\<not> (s ! i = dquote \<or> s ! i = squote)" using ot by simp
      ultimately show ?thesis using "1.IH"(4)[OF gd ot(1) ot(2)] "1.prems"(1) by simp
    qed
  qed
qed

lemma findMatchingParen_Some:
  assumes "findMatchingParen s k = Some c"
  shows "k < c \<and> c < length s \<and> s ! c = CHR '')''"
proof -
  obtain j d where jd: "paren_loop s (k + 1) 1 = (j, d)" by (cases "paren_loop s (k + 1) 1")
  with assms have "d = 0" "c = j - 1"
    unfolding findMatchingParen_def paren_from_def by (auto simp: Let_def split: if_splits)
  with jd paren_loop_result[of 1 s "k + 1" j] show ?thesis by auto
qed

subsection \<open>The token stream as a list\<close>

lemma filter_upt_empty:
  "(\<forall>m. a \<le> m \<and> m < b \<longrightarrow> \<not> P m) \<Longrightarrow> filter P [a..<b] = []"
  by (auto simp: filter_empty_conv)

lemma upt_split:
  assumes "a \<le> m" "m \<le> b"
  shows "[a..<b] = [a..<m] @ [m..<b]"
proof -
  from assms(2) obtain k where "b = m + k" using le_Suc_ex by blast
  with upt_add_eq_append[OF assms(1), of k] show ?thesis by simp
qed

lemma upt_split3:
  assumes "a \<le> m" "m < e" "e \<le> b"
  shows "[a..<b] = [a..<m] @ m # [Suc m..<e] @ [e..<b]"
proof -
  have "[a..<b] = [a..<m] @ [m..<b]" using assms by (intro upt_split) simp_all
  also have "[m..<b] = m # [Suc m..<b]" using assms by (simp add: upt_conv_Cons)
  also have "[Suc m..<b] = [Suc m..<e] @ [e..<b]" using assms by (intro upt_split) simp_all
  finally show ?thesis by simp
qed

lemma scan_loop_list:
  "fst (scan_loop ty s li toks) =
     toks @ List.map_filter (parse_call ty s) (filter (occurrence ty s) [li..<length s])"
proof (induction "length s - li" arbitrary: li toks rule: less_induct)
  case less
  show ?case
  proof (cases "exec_from (keyword ty) s li")
    case None
    then have "\<forall>m. li \<le> m \<and> m < length s \<longrightarrow> \<not> occurrence ty s m"
      unfolding occurrence_def by (simp add: exec_from_None)
    then have "filter (occurrence ty s) [li..<length s] = []" by (rule filter_upt_empty)
    with None show ?thesis by (simp add: scan_loop_None map_filter_simps)
  next
    case (Some p)
    obtain m e where p: "p = (m, e)" by (cases p)
    with Some have ex: "exec_from (keyword ty) s li = Some (m, e)" by simp
    then have r: "li \<le> m" "m < length s" "match_at (keyword ty) s m = Some e"
      "\<forall>m'. li \<le> m' \<and> m' < m \<longrightarrow> match_at (keyword ty) s m' = None"
      by (simp_all add: exec_from_Some)
    from exec_from_bounds[OF ex] have b: "m < e" "e \<le> length s" and d: "length s - e < length s - li"
      by arith+
    define toks' where "toks' = (case parse_call ty s m of None \<Rightarrow> toks | Some token \<Rightarrow> toks @ [token])"
    have f1: "filter (occurrence ty s) [li..<m] = []"
      using r(4) unfolding occurrence_def by (intro filter_upt_empty) simp
    have f2: "filter (occurrence ty s) [Suc m..<e] = []"
    proof (rule filter_upt_empty, intro allI impI)
      fix m' assume "Suc m \<le> m' \<and> m' < e"
      then have "m < m'" "m' < e" by simp_all
      from no_overlap[OF r(3) this keyword_nonempty keyword_word]
      show "\<not> occurrence ty s m'" unfolding occurrence_def by simp
    qed
    have om: "occurrence ty s m" using r unfolding occurrence_def by simp
    have "filter (occurrence ty s) [li..<length s] = m # filter (occurrence ty s) [e..<length s]"
      using upt_split3[OF r(1) b(1) b(2)] f1 f2 om by simp
    then have "toks @ List.map_filter (parse_call ty s) (filter (occurrence ty s) [li..<length s])
        = toks' @ List.map_filter (parse_call ty s) (filter (occurrence ty s) [e..<length s])"
      unfolding toks'_def by (simp add: map_filter_simps split: option.splits)
    moreover have "fst (scan_loop ty s li toks) = fst (scan_loop ty s e toks')"
      unfolding toks'_def by (simp add: scan_loop_Some[OF ex])
    ultimately show ?thesis using less[OF d, of toks'] by simp
  qed
qed

lemma parseRouteTokens_list:
  "parseRouteTokens s = sort_key startIndex (concat (map (\<lambda>ty. surviving_tokens ty s) patterns))"
  unfolding parseRouteTokens_def patterns_def surviving_tokens_def
  by (simp add: scan_loop_list)

subsection \<open>The depth of the recursion\<close>

lemma collect_raises: "collect rs = Inl RangeError \<longleftrightarrow> Inl RangeError \<in> set rs"
proof (induction rs rule: collect.induct)
  case 1
  show ?case by simp
next
  case (2 e rs)
  show ?case by (cases e) simp
next
  case (3 xs rs)
  then show ?case by (cases "collect rs") auto
qed

lemma error_cases: "r = Inl RangeError \<or> (\<exists>xs. r = Inr xs)"
  by (cases r) (auto intro: error.exhaust)

lemma collect_results:
  "Inl RangeError \<notin> set (map f xs) \<Longrightarrow> (\<And>x. x \<in> set xs \<Longrightarrow> f x \<noteq> Inl RangeError \<Longrightarrow> f x = Inr (g x))
   \<Longrightarrow> collect (map f xs) = Inr (concat (map g xs))"
proof (induction xs)
  case Nil
  show ?case by simp
next
  case (Cons x xs)
  from Cons.prems have "f x = Inr (g x)" by auto
  moreover have "collect (map f xs) = Inr (concat (map g xs))"
    using Cons by auto
  ultimately show ?case by simp
qed

lemma ancestors_None: "parent_of ts k = None \<Longrightarrow> ancestors ts k = [k]"
  by (subst ancestors.simps) simp

lemma ancestors_Some: "parent_of ts k = Some j \<Longrightarrow> ancestors ts k = ancestors ts j @ [k]"
  by (subst ancestors.simps) simp

lemma ancestors_self: "k \<in> set (ancestors ts k)"
  by (cases "parent_of ts k") (simp_all add: ancestors_None ancestors_Some)

lemma ancestors_le: "i \<in> set (ancestors ts k) \<Longrightarrow> i \<le> k"
proof (induction ts k rule: ancestors.induct)
  case (1 ts k)
  show ?case
  proof (cases "parent_of ts k")
    case None
    with "1.prems" show ?thesis by (simp add: ancestors_None)
  next
    case (Some j)
    from parent_of_less[OF Some] have "j < k" .
    with "1.prems" "1.IH"[OF Some] Some show ?thesis
      by (auto simp: ancestors_Some)
  qed
qed

lemma ancestors_child:
  "i \<in> set (ancestors ts k) \<Longrightarrow> i \<noteq> k \<Longrightarrow>
   \<exists>c. parent_of ts c = Some i \<and> c \<in> set (ancestors ts k)"
proof (induction ts k rule: ancestors.induct)
  case (1 ts k)
  show ?case
  proof (cases "parent_of ts k")
    case None
    with "1.prems" show ?thesis by (simp add: ancestors_None)
  next
    case (Some j)
    with "1.prems" have ij: "i \<in> set (ancestors ts j)" by (simp add: ancestors_Some)
    show ?thesis
    proof (cases "i = j")
      case True
      with Some ancestors_self[of k ts] show ?thesis by blast
    next
      case False
      from "1.IH"[OF Some ij False] obtain c where "parent_of ts c = Some i" "c \<in> set (ancestors ts j)"
        by blast
      with Some show ?thesis by (auto simp: ancestors_Some)
    qed
  qed
qed

lemma ancestors_prefix:
  "c \<in> set (ancestors ts k) \<Longrightarrow> \<exists>rest. ancestors ts k = ancestors ts c @ rest"
proof (induction ts k rule: ancestors.induct)
  case (1 ts k)
  show ?case
  proof (cases "c = k")
    case True
    then show ?thesis by simp
  next
    case False
    show ?thesis
    proof (cases "parent_of ts k")
      case None
      with "1.prems" False show ?thesis by (simp add: ancestors_None)
    next
      case (Some j)
      with "1.prems" False have "c \<in> set (ancestors ts j)" by (simp add: ancestors_Some)
      from "1.IH"[OF Some this] obtain rest where "ancestors ts j = ancestors ts c @ rest" by blast
      with Some show ?thesis by (simp add: ancestors_Some)
    qed
  qed
qed

lemma ancestors_parent:
  assumes "c \<in> set (ancestors ts k)" "parent_of ts c = Some i"
  shows "i \<in> set (ancestors ts k)"
proof -
  from ancestors_prefix[OF assms(1)] obtain rest where "ancestors ts k = ancestors ts c @ rest"
    by blast
  moreover have "i \<in> set (ancestors ts c)"
    using assms(2) ancestors_self[of i ts] by (simp add: ancestors_Some)
  ultimately show ?thesis by simp
qed

lemma ancestors_root: "\<exists>r. r \<in> set (ancestors ts k) \<and> parent_of ts r = None"
proof (induction ts k rule: ancestors.induct)
  case (1 ts k)
  show ?case
  proof (cases "parent_of ts k")
    case None
    with ancestors_self[of k ts] show ?thesis by blast
  next
    case (Some j)
    from "1.IH"[OF Some] Some show ?thesis by (auto simp: ancestors_Some)
  qed
qed

lemma children_of_iff: "c \<in> set (children_of ts i) \<longleftrightarrow> c < length ts \<and> parent_of ts c = Some i"
  unfolding children_of_filter by auto

lemma traverse_stack_raises:
  "traverse_stack f s ts i = Inl RangeError \<longleftrightarrow>
     (\<exists>k. k < length ts \<and> i \<in> set (ancestors ts k) \<and>
          f + length (ancestors ts i) \<le> length (ancestors ts k)) \<or> f = 0"
proof (induction f arbitrary: i)
  case 0
  show ?case by simp
next
  case (Suc f)
  have "traverse_stack (Suc f) s ts i = Inl RangeError \<longleftrightarrow>
      collect (map (traverse_stack f s ts) (children_of ts i)) = Inl RangeError"
    by (cases "collect (map (traverse_stack f s ts) (children_of ts i))")
       (auto intro: error.exhaust)
  also have "\<dots> \<longleftrightarrow> (\<exists>c \<in> set (children_of ts i). traverse_stack f s ts c = Inl RangeError)"
    unfolding collect_raises by force
  also have "\<dots> \<longleftrightarrow> (\<exists>k. k < length ts \<and> i \<in> set (ancestors ts k) \<and>
          Suc f + length (ancestors ts i) \<le> length (ancestors ts k))"
  proof
    assume "\<exists>c \<in> set (children_of ts i). traverse_stack f s ts c = Inl RangeError"
    then obtain c where "c \<in> set (children_of ts i)"
        and c3: "traverse_stack f s ts c = Inl RangeError" by blast
    then have c12: "c < length ts" "parent_of ts c = Some i"
      by (simp_all add: children_of_iff)
    note c = c12 c3
    have lc: "length (ancestors ts c) = length (ancestors ts i) + 1"
      using c(2) by (simp add: ancestors_Some)
    from c(3) Suc.IH[of c] consider
      (deep) k where "k < length ts" "c \<in> set (ancestors ts k)"
          "f + length (ancestors ts c) \<le> length (ancestors ts k)"
      | (zero) "f = 0" by blast
    then show "\<exists>k. k < length ts \<and> i \<in> set (ancestors ts k) \<and>
          Suc f + length (ancestors ts i) \<le> length (ancestors ts k)"
    proof cases
      case deep
      from ancestors_parent[OF deep(2) c(2)] deep lc show ?thesis by auto
    next
      case zero
      have "i \<in> set (ancestors ts c)" using ancestors_parent[OF ancestors_self c(2)] .
      with zero lc c(1) show ?thesis by auto
    qed
  next
    assume "\<exists>k. k < length ts \<and> i \<in> set (ancestors ts k) \<and>
          Suc f + length (ancestors ts i) \<le> length (ancestors ts k)"
    then obtain k where k: "k < length ts" "i \<in> set (ancestors ts k)"
        "Suc f + length (ancestors ts i) \<le> length (ancestors ts k)" by blast
    then have "i \<noteq> k" by auto
    from ancestors_child[OF k(2) this] obtain c where c: "parent_of ts c = Some i"
        "c \<in> set (ancestors ts k)" by blast
    from ancestors_le[OF c(2)] k(1) have cl: "c < length ts" by simp
    have lc: "length (ancestors ts c) = length (ancestors ts i) + 1"
      using c(1) by (simp add: ancestors_Some)
    have "k < length ts \<and> c \<in> set (ancestors ts k) \<and>
        f + length (ancestors ts c) \<le> length (ancestors ts k)"
      using k(1) c(2) k(3) lc by simp
    then have "traverse_stack f s ts c = Inl RangeError"
      using Suc.IH[of c] by blast
    moreover have "c \<in> set (children_of ts i)"
      using c(1) cl by (simp add: children_of_iff)
    ultimately show "\<exists>c \<in> set (children_of ts i). traverse_stack f s ts c = Inl RangeError"
      by blast
  qed
  finally show ?case by simp
qed

lemma traverse_stack_result:
  "traverse_stack f s ts i \<noteq> Inl RangeError \<Longrightarrow> traverse_stack f s ts i = Inr (traverse s ts i)"
proof (induction f arbitrary: i)
  case 0
  then show ?case by simp
next
  case (Suc f)
  define rs where "rs = map (traverse_stack f s ts) (children_of ts i)"
  from Suc.prems have nr: "collect rs \<noteq> Inl RangeError"
    unfolding rs_def by (cases "collect (map (traverse_stack f s ts) (children_of ts i))")
      (auto intro: error.exhaust)
  then have "Inl RangeError \<notin> set rs" using collect_raises by blast
  then have "collect rs = Inr (concat (map (traverse s ts) (children_of ts i)))"
    unfolding rs_def using Suc.IH by (intro collect_results) auto
  then show ?case
    unfolding rs_def by (subst traverse.simps) simp
qed

lemma parseRoutesFile_stack_raises:
  "parseRoutesFile_stack f s = Inl RangeError \<longleftrightarrow>
     (\<exists>k. k < length (parseRouteTokens s) \<and> f < length (ancestors (parseRouteTokens s) k))"
proof -
  define ts where "ts = parseRouteTokens s"
  have "parseRoutesFile_stack f s = Inl RangeError \<longleftrightarrow>
      (\<exists>r \<in> set (buildTree ts). traverse_stack f s ts r = Inl RangeError)"
    unfolding parseRoutesFile_stack_def ts_def by (force simp: Let_def collect_raises)
  also have "\<dots> \<longleftrightarrow> (\<exists>k. k < length ts \<and> f < length (ancestors ts k))"
  proof
    assume "\<exists>r \<in> set (buildTree ts). traverse_stack f s ts r = Inl RangeError"
    then obtain r where r: "r < length ts" "parent_of ts r = None"
        "traverse_stack f s ts r = Inl RangeError"
      unfolding buildTree_filter by auto
    have lr: "length (ancestors ts r) = 1" using r(2) by (simp add: ancestors_None)
    from r(3) traverse_stack_raises[of f s ts r] consider
      (deep) k where "k < length ts" "f + length (ancestors ts r) \<le> length (ancestors ts k)"
      | (zero) "f = 0" by blast
    then show "\<exists>k. k < length ts \<and> f < length (ancestors ts k)"
    proof cases
      case deep
      with lr show ?thesis by auto
    next
      case zero
      with r(1) lr show ?thesis by auto
    qed
  next
    assume "\<exists>k. k < length ts \<and> f < length (ancestors ts k)"
    then obtain k where k: "k < length ts" "f < length (ancestors ts k)" by blast
    from ancestors_root[of ts k] obtain r where r: "r \<in> set (ancestors ts k)"
        "parent_of ts r = None" by blast
    from ancestors_le[OF r(1)] k(1) have rl: "r < length ts" by simp
    have lr: "length (ancestors ts r) = 1" using r(2) by (simp add: ancestors_None)
    have "k < length ts \<and> r \<in> set (ancestors ts k) \<and>
        f + length (ancestors ts r) \<le> length (ancestors ts k)"
      using k r(1) lr by simp
    then have "traverse_stack f s ts r = Inl RangeError"
      using traverse_stack_raises[of f s ts r] by blast
    with r(2) rl show "\<exists>r \<in> set (buildTree ts). traverse_stack f s ts r = Inl RangeError"
      unfolding buildTree_filter by auto
  qed
  finally show ?thesis unfolding ts_def .
qed

lemma parseRoutesFile_stack_result:
  assumes "parseRoutesFile_stack f s \<noteq> Inl RangeError"
  shows "parseRoutesFile_stack f s = Inr (parseRoutesFile s)"
proof -
  define ts where "ts = parseRouteTokens s"
  from assms have "Inl RangeError \<notin> set (map (traverse_stack f s ts) (buildTree ts))"
    unfolding parseRoutesFile_stack_def ts_def by (simp add: Let_def collect_raises)
  then have "collect (map (traverse_stack f s ts) (buildTree ts)) =
      Inr (concat (map (traverse s ts) (buildTree ts)))"
    using traverse_stack_result by (intro collect_results) auto
  then show ?thesis
    unfolding parseRoutesFile_stack_def parseRoutesFile_def ts_def by (simp add: Let_def)
qed

subsection \<open>One record for every token that is no prefix\<close>

lemma traverse_preorder:
  "traverse s ts i =
     map (route_info s ts) (filter (\<lambda>n. type (ts ! n) \<noteq> Prefix) (preorder ts i))"
proof (induction s ts i rule: traverse.induct)
  case (1 s ts i)
  have "concat (map (traverse s ts) (children_of ts i)) =
      concat (map (\<lambda>c. map (route_info s ts) (filter (\<lambda>n. type (ts ! n) \<noteq> Prefix) (preorder ts c)))
                (children_of ts i))"
    using "1.IH" by (intro arg_cong[where f = concat] map_cong) simp_all
  also have "\<dots> = map (route_info s ts) (filter (\<lambda>n. type (ts ! n) \<noteq> Prefix)
      (concat (map (preorder ts) (children_of ts i))))"
    by (simp add: map_concat filter_concat comp_def)
  finally show ?case
    by (subst traverse.simps, subst preorder.simps) simp
qed

lemma ancestors_last: "last (ancestors ts k) = k"
  by (cases "parent_of ts k") (simp_all add: ancestors_None ancestors_Some)

lemma same_depth_unique:
  assumes "c \<in> set (ancestors ts k)" "c' \<in> set (ancestors ts k)"
    "length (ancestors ts c) = length (ancestors ts c')"
  shows "c = c'"
proof -
  from ancestors_prefix[OF assms(1)] obtain r where r: "ancestors ts k = ancestors ts c @ r" by blast
  from ancestors_prefix[OF assms(2)] obtain r' where r': "ancestors ts k = ancestors ts c' @ r'" by blast
  from r r' assms(3) have "ancestors ts c = ancestors ts c'" by simp
  then have "last (ancestors ts c) = last (ancestors ts c')" by simp
  then show ?thesis by (simp add: ancestors_last)
qed

lemma preorder_hd: "\<exists>rest. preorder ts i = i # rest"
  by (subst preorder.simps) simp

lemma preorder_set:
  "i < length ts \<Longrightarrow> set (preorder ts i) = {k. k < length ts \<and> i \<in> set (ancestors ts k)}"
proof (induction ts i rule: preorder.induct)
  case (1 ts i)
  have sub: "set (preorder ts c) = {k. k < length ts \<and> c \<in> set (ancestors ts k)}"
    if "c \<in> set (children_of ts i)" for c
    using "1.IH"[OF that] that children_of_bounds by blast
  have "set (preorder ts i) = insert i (\<Union>c \<in> set (children_of ts i). set (preorder ts c))"
    by (subst preorder.simps) simp
  also have "\<dots> = insert i (\<Union>c \<in> set (children_of ts i). {k. k < length ts \<and> c \<in> set (ancestors ts k)})"
    using sub by simp
  also have "\<dots> = {k. k < length ts \<and> i \<in> set (ancestors ts k)}"
  proof (intro set_eqI iffI)
    fix k assume "k \<in> insert i (\<Union>c \<in> set (children_of ts i). {k. k < length ts \<and> c \<in> set (ancestors ts k)})"
    then consider "k = i" | c where "c \<in> set (children_of ts i)" "k < length ts" "c \<in> set (ancestors ts k)"
      by blast
    then show "k \<in> {k. k < length ts \<and> i \<in> set (ancestors ts k)}"
    proof cases
      case 1
      with "1.prems" ancestors_self show ?thesis by simp
    next
      case 2
      from 2(1) have "parent_of ts c = Some i" by (simp add: children_of_iff)
      from ancestors_parent[OF 2(3) this] 2(2) show ?thesis by simp
    qed
  next
    fix k assume "k \<in> {k. k < length ts \<and> i \<in> set (ancestors ts k)}"
    then have k: "k < length ts" "i \<in> set (ancestors ts k)" by simp_all
    show "k \<in> insert i (\<Union>c \<in> set (children_of ts i). {k. k < length ts \<and> c \<in> set (ancestors ts k)})"
    proof (cases "k = i")
      case True
      then show ?thesis by simp
    next
      case False
      from ancestors_child[OF k(2)] False obtain c where c: "parent_of ts c = Some i"
          "c \<in> set (ancestors ts k)" by blast
      from ancestors_le[OF c(2)] k(1) have "c < length ts" by simp
      with c(1) have "c \<in> set (children_of ts i)" by (simp add: children_of_iff)
      with c(2) k(1) show ?thesis by blast
    qed
  qed
  finally show ?case .
qed

lemma distinct_subtrees:
  assumes cs: "distinct cs" "\<And>c. c \<in> set cs \<Longrightarrow> c < length ts"
    and each: "\<And>c. c \<in> set cs \<Longrightarrow> distinct (preorder ts c)"
    and depth: "\<And>c c'. c \<in> set cs \<Longrightarrow> c' \<in> set cs \<Longrightarrow>
        length (ancestors ts c) = length (ancestors ts c')"
  shows "distinct (concat (map (preorder ts) cs))"
proof (rule distinct_concat)
  have "inj_on (preorder ts) (set cs)"
  proof (rule inj_onI)
    fix c c' assume "preorder ts c = preorder ts c'"
    moreover obtain r r' where "preorder ts c = c # r" "preorder ts c' = c' # r'"
      using preorder_hd by blast
    ultimately show "c = c'" by simp
  qed
  with cs(1) show "distinct (map (preorder ts) cs)" by (simp add: distinct_map)
next
  fix ys assume "ys \<in> set (map (preorder ts) cs)"
  with each show "distinct ys" by auto
next
  fix ys zs assume a: "ys \<in> set (map (preorder ts) cs)" "zs \<in> set (map (preorder ts) cs)" "ys \<noteq> zs"
  then obtain c c' where c: "c \<in> set cs" "ys = preorder ts c" "c' \<in> set cs" "zs = preorder ts c'"
    by auto
  show "set ys \<inter> set zs = {}"
  proof (rule ccontr)
    assume "set ys \<inter> set zs \<noteq> {}"
    then obtain k where "k \<in> set ys" "k \<in> set zs" by blast
    with c cs(2) have "c \<in> set (ancestors ts k)" "c' \<in> set (ancestors ts k)"
      by (simp_all add: preorder_set)
    from same_depth_unique[OF this depth[OF c(1) c(3)]] c a(3) show False by simp
  qed
qed

lemma preorder_distinct: "i < length ts \<Longrightarrow> distinct (preorder ts i)"
proof (induction ts i rule: preorder.induct)
  case (1 ts i)
  have bound: "c < length ts" if "c \<in> set (children_of ts i)" for c
    using that children_of_bounds by blast
  have d: "distinct (concat (map (preorder ts) (children_of ts i)))"
  proof (rule distinct_subtrees)
    show "distinct (children_of ts i)" unfolding children_of_filter by simp
    show "\<And>c. c \<in> set (children_of ts i) \<Longrightarrow> c < length ts" by (rule bound)
    show "\<And>c. c \<in> set (children_of ts i) \<Longrightarrow> distinct (preorder ts c)"
      using "1.IH" bound by blast
    show "\<And>c c'. c \<in> set (children_of ts i) \<Longrightarrow> c' \<in> set (children_of ts i) \<Longrightarrow>
        length (ancestors ts c) = length (ancestors ts c')"
      by (simp add: children_of_iff ancestors_Some)
  qed
  have "i \<notin> set (concat (map (preorder ts) (children_of ts i)))"
  proof
    assume "i \<in> set (concat (map (preorder ts) (children_of ts i)))"
    then obtain c where c: "c \<in> set (children_of ts i)" "i \<in> set (preorder ts c)" by auto
    from c(2) bound[OF c(1)] have "c \<in> set (ancestors ts i)" by (simp add: preorder_set)
    from ancestors_le[OF this] children_of_bounds[OF c(1)] show False by simp
  qed
  with d show ?case by (subst preorder.simps) simp
qed

lemma forest_nodes:
  "distinct (concat (map (preorder ts) (buildTree ts))) \<and>
   set (concat (map (preorder ts) (buildTree ts))) = {k. k < length ts}"
proof
  have root: "r < length ts \<and> parent_of ts r = None" if "r \<in> set (buildTree ts)" for r
    using that unfolding buildTree_filter by simp
  show "distinct (concat (map (preorder ts) (buildTree ts)))"
  proof (rule distinct_subtrees)
    show "distinct (buildTree ts)" unfolding buildTree_filter by simp
    show "\<And>c. c \<in> set (buildTree ts) \<Longrightarrow> c < length ts" using root by blast
    show "\<And>c. c \<in> set (buildTree ts) \<Longrightarrow> distinct (preorder ts c)"
      using root preorder_distinct by blast
    show "\<And>c c'. c \<in> set (buildTree ts) \<Longrightarrow> c' \<in> set (buildTree ts) \<Longrightarrow>
        length (ancestors ts c) = length (ancestors ts c')"
      using root by (simp add: ancestors_None)
  qed
  show "set (concat (map (preorder ts) (buildTree ts))) = {k. k < length ts}"
  proof (intro set_eqI iffI)
    fix k assume "k \<in> set (concat (map (preorder ts) (buildTree ts)))"
    then obtain r where "r \<in> set (buildTree ts)" "k \<in> set (preorder ts r)" by auto
    with root[of r] show "k \<in> {k. k < length ts}" by (simp add: preorder_set)
  next
    fix k assume "k \<in> {k. k < length ts}"
    then have k: "k < length ts" by simp
    from ancestors_root[of ts k] obtain r where r: "r \<in> set (ancestors ts k)"
        "parent_of ts r = None" by blast
    from ancestors_le[OF r(1)] k have rl: "r < length ts" by simp
    with r(2) have "r \<in> set (buildTree ts)" unfolding buildTree_filter by simp
    moreover have "k \<in> set (preorder ts r)" using r(1) k rl by (simp add: preorder_set)
    ultimately show "k \<in> set (concat (map (preorder ts) (buildTree ts)))" by auto
  qed
qed

lemma parseRoutesFile_records:
  "\<exists>ns. distinct ns \<and>
        set ns = {n. n < length (parseRouteTokens s) \<and> type (parseRouteTokens s ! n) \<noteq> Prefix} \<and>
        parseRoutesFile s = map (route_info s (parseRouteTokens s)) ns"
proof -
  define ts where "ts = parseRouteTokens s"
  define ns where "ns = filter (\<lambda>n. type (ts ! n) \<noteq> Prefix) (concat (map (preorder ts) (buildTree ts)))"
  have "traverse s ts = (\<lambda>r. map (route_info s ts)
      (filter (\<lambda>n. type (ts ! n) \<noteq> Prefix) (preorder ts r)))"
    by (rule ext) (rule traverse_preorder)
  then have "parseRoutesFile s = concat (map (\<lambda>r. map (route_info s ts)
      (filter (\<lambda>n. type (ts ! n) \<noteq> Prefix) (preorder ts r))) (buildTree ts))"
    unfolding parseRoutesFile_def ts_def by (simp add: Let_def)
  also have "\<dots> = map (route_info s ts) ns"
    unfolding ns_def by (simp add: map_concat filter_concat comp_def)
  finally have "parseRoutesFile s = map (route_info s ts) ns" .
  moreover have "distinct ns" unfolding ns_def using forest_nodes[of ts] by simp
  moreover have "set ns = {n. n < length ts \<and> type (ts ! n) \<noteq> Prefix}"
    unfolding ns_def using forest_nodes[of ts] by auto
  ultimately show ?thesis unfolding ts_def by blast
qed

subsection \<open>Layouts nested to any depth\<close>

text \<open>
  The parse of \<open>deep_text n\<close>, for every \<open>n\<close>: the characters of the text by offset, the
  scans of the source on them, the token stream and the chain of every token.
\<close>

lemma length_concat_replicate: "length (concat (replicate n u)) = n * length u"
  by (induction n) simp_all

lemma nth_concat_replicate:
  "i < n \<Longrightarrow> r < length u \<Longrightarrow> concat (replicate n u) ! (i * length u + r) = u ! r"
proof (induction n arbitrary: i)
  case 0
  then show ?case by simp
next
  case (Suc n)
  show ?case
  proof (cases i)
    case 0
    with Suc.prems show ?thesis by (simp add: nth_append)
  next
    case (Suc j)
    have "concat (replicate (Suc n) u) ! (Suc j * length u + r) =
        concat (replicate n u) ! (j * length u + r)"
      by (simp add: nth_append)
    with Suc Suc.IH[of j] Suc.prems show ?thesis by simp
  qed
qed

lemma deep_length: "length (deep_text n) = 14 * n"
  unfolding deep_text_def by (simp add: length_concat_replicate layout_open_def layout_close_def)

lemma deep_open:
  assumes "i < n" "r < 12"
  shows "deep_text n ! (12 * i + r) = layout_open ! r"
proof -
  have l: "length layout_open = 12" by (simp add: layout_open_def)
  have "12 * i + r < n * 12" using assms by simp
  then have "deep_text n ! (12 * i + r) = concat (replicate n layout_open) ! (i * length layout_open + r)"
    unfolding deep_text_def by (simp add: nth_append length_concat_replicate l mult.commute)
  also have "\<dots> = layout_open ! r"
    using assms by (intro nth_concat_replicate) (simp_all add: l)
  finally show ?thesis .
qed

lemma deep_close:
  assumes "k < n" "r < 2"
  shows "deep_text n ! (12 * n + 2 * k + r) = layout_close ! r"
proof -
  have l: "length layout_close = 2" "length layout_open = 12" by (simp_all add: layout_close_def layout_open_def)
  have "deep_text n ! (12 * n + 2 * k + r) = concat (replicate n layout_close) ! (k * length layout_close + r)"
    unfolding deep_text_def by (simp add: nth_append length_concat_replicate l mult.commute)
  also have "\<dots> = layout_close ! r"
    using assms by (intro nth_concat_replicate) (simp_all add: l)
  finally show ?thesis .
qed

lemma deep_chars:
  assumes "i < n"
  shows "deep_text n ! (12 * i) = CHR ''l''"
    and "deep_text n ! (12 * i + 6) = CHR ''(''"
    and "deep_text n ! (12 * i + 7) = squote"
    and "deep_text n ! (12 * i + 8) = CHR ''x''"
    and "deep_text n ! (12 * i + 9) = squote"
    and "deep_text n ! (12 * i + 10) = CHR '',''"
    and "deep_text n ! (12 * i + 11) = CHR ''[''"
  using deep_open[OF assms, of 0] deep_open[OF assms, of 6] deep_open[OF assms, of 7]
    deep_open[OF assms, of 8] deep_open[OF assms, of 9] deep_open[OF assms, of 10]
    deep_open[OF assms, of 11]
  by (simp_all add: layout_open_def squote_def)

lemma deep_closing_chars:
  assumes "k < n"
  shows "deep_text n ! (12 * n + 2 * k) = CHR '']''"
    and "deep_text n ! (12 * n + 2 * k + 1) = CHR '')''"
  using deep_close[OF assms, of 0] deep_close[OF assms, of 1]
  by (simp_all add: layout_close_def)

text \<open>The steps of the loops, with the offset they arrive at as a variable.\<close>

lemma paren_open_to:
  "i < length s \<Longrightarrow> d > 0 \<Longrightarrow> s ! i = CHR ''('' \<Longrightarrow> j = i + 1 \<Longrightarrow> e = d + 1 \<Longrightarrow>
   paren_loop s i d = paren_loop s j e"
  by (simp add: paren_loop_open)

lemma paren_close_to:
  "i < length s \<Longrightarrow> d > 0 \<Longrightarrow> s ! i = CHR '')'' \<Longrightarrow> j = i + 1 \<Longrightarrow> e = d - 1 \<Longrightarrow>
   paren_loop s i d = paren_loop s j e"
  by (simp add: paren_loop_close)

lemma paren_other_to:
  "i < length s \<Longrightarrow> d > 0 \<Longrightarrow> s ! i \<noteq> CHR ''('' \<Longrightarrow> s ! i \<noteq> CHR '')'' \<Longrightarrow>
   s ! i \<noteq> dquote \<Longrightarrow> s ! i \<noteq> squote \<Longrightarrow> j = i + 1 \<Longrightarrow> paren_loop s i d = paren_loop s j d"
  by (simp add: paren_loop_other)

lemma paren_quote_to:
  "i < length s \<Longrightarrow> d > 0 \<Longrightarrow> s ! i = squote \<Longrightarrow> k = i + 1 \<Longrightarrow>
   skip_quoted s squote k = e \<Longrightarrow> j = e + 1 \<Longrightarrow> paren_loop s i d = paren_loop s j d"
  using paren_loop_quote[of i s d] by simp

lemma skip_quoted_plain_to:
  "i < length s \<Longrightarrow> s ! i \<noteq> q \<Longrightarrow> s ! i \<noteq> backslash \<Longrightarrow> j = i + 1 \<Longrightarrow>
   skip_quoted s q i = skip_quoted s q j"
  by (simp add: skip_quoted_plain)

lemma read_quoted_plain_to:
  "i < length s \<Longrightarrow> s ! i \<noteq> q \<Longrightarrow> s ! i \<noteq> backslash \<Longrightarrow> j = i + 1 \<Longrightarrow> w = v @ [s ! i] \<Longrightarrow>
   read_quoted s q i v = read_quoted s q j w"
  by (subst read_quoted.simps) simp

lemma read_quoted_stop: "\<not> (i < length s \<and> s ! i \<noteq> q) \<Longrightarrow> read_quoted s q i v = (i, v)"
  by (subst read_quoted.simps) auto

lemma skip_space_comma_stop:
  "\<not> (i < length s \<and> (is_space (s ! i) \<or> s ! i = CHR '','')) \<Longrightarrow> skip_space_comma s i = i"
  by (subst skip_space_comma.simps) auto

lemma skip_space_stop: "\<not> (i < length s \<and> is_space (s ! i)) \<Longrightarrow> skip_space s i = i"
  by (subst skip_space.simps) auto

lemma extractStringArg_to:
  "skip_space_comma s a = i \<Longrightarrow> i < length s \<Longrightarrow> s ! i = squote \<Longrightarrow> k = i + 1 \<Longrightarrow>
   read_quoted s squote k [] = (j, v) \<Longrightarrow> j < length s \<Longrightarrow> e = j + 1 \<Longrightarrow>
   extractStringArg s a = Some (v, e)"
  by (simp add: extractStringArg_def Let_def)

lemma children_comma_to:
  "i < e \<Longrightarrow> char_at s i = Some (CHR '','') \<Longrightarrow> j = i + 1 \<Longrightarrow>
   children_loop s i e fc = children_loop s j e True"
  by (simp add: children_loop_comma)

lemma match_at_to:
  assumes "m = 0 \<or> \<not> is_word (s ! (m - 1))" "substring s m (m + length kw) = kw"
    "j = m + length kw" "j < length s" "s ! j = CHR ''(''" "e = j + 1"
  shows "match_at kw s m = Some e"
proof -
  have "\<not> is_space (CHR ''('')" by (simp add: is_space_def)
  with assms have "skip_space s (m + length kw) = j" by (simp add: skip_space_stop)
  with assms show ?thesis by (simp add: match_at_def Let_def)
qed

lemma parse_call_layout_to:
  "indexOf s (CHR ''('') m = Some k \<Longrightarrow> a = k + 1 \<Longrightarrow> paren_from s a = Some close \<Longrightarrow>
   extractStringArg s a = Some (v, fe) \<Longrightarrow> findChildrenArray s fe close = Some c \<Longrightarrow>
   parse_call Layout s m =
     Some \<lparr>type = Layout, path = [], startIndex = m, endIndex = close, hasChildren = True,
           childrenStartIndex = Some c\<rparr>"
  by (simp add: parse_call_def make_token_def Let_def)

lemma substring_eqI:
  assumes "i + length kw \<le> length s" "\<And>m. m < length kw \<Longrightarrow> s ! (i + m) = kw ! m"
  shows "substring s i (i + length kw) = kw"
  unfolding substring_def using assms by (intro nth_equalityI) simp_all

lemma layout_open_letters:
  assumes "r < 6"
  shows "layout_open ! r \<in> set ''layout''"
proof -
  from assms have "r = 0 \<or> r = 1 \<or> r = 2 \<or> r = 3 \<or> r = 4 \<or> r = 5" by arith
  then show ?thesis by (auto simp: layout_open_def)
qed

lemma paren_loop_run:
  assumes "\<And>m. i \<le> m \<Longrightarrow> m < j \<Longrightarrow>
      s ! m \<noteq> CHR ''('' \<and> s ! m \<noteq> CHR '')'' \<and> s ! m \<noteq> dquote \<and> s ! m \<noteq> squote"
    and "i \<le> j" "j \<le> length s" "d > 0"
  shows "paren_loop s i d = paren_loop s j d"
  using assms
proof (induction "j - i" arbitrary: i)
  case 0
  then show ?case by simp
next
  case (Suc k)
  then have lt: "i < j" by simp
  with Suc.prems have "paren_loop s i d = paren_loop s (i + 1) d"
    by (intro paren_loop_other) auto
  also have "\<dots> = paren_loop s j d"
    using Suc.hyps(2) lt Suc.prems by (intro Suc.hyps(1)) auto
  finally show ?case .
qed

lemma paren_head:
  assumes "i < n" "d > 0"
  shows "paren_loop (deep_text n) (12 * i) d = paren_loop (deep_text n) (12 * i + 7) (d + 1)"
proof -
  have "paren_loop (deep_text n) (12 * i) d = paren_loop (deep_text n) (12 * i + 6) d"
  proof (rule paren_loop_run)
    fix m assume m: "12 * i \<le> m" "m < 12 * i + 6"
    define r where "r = m - 12 * i"
    with m have r: "m = 12 * i + r" "r < 6" by simp_all
    then have "deep_text n ! m = layout_open ! r" using deep_open[OF assms(1), of r] by simp
    with layout_open_letters[OF r(2)]
    show "deep_text n ! m \<noteq> CHR ''('' \<and> deep_text n ! m \<noteq> CHR '')'' \<and>
        deep_text n ! m \<noteq> dquote \<and> deep_text n ! m \<noteq> squote"
      by (auto simp: dquote_def squote_def)
  next
    show "12 * i + 6 \<le> length (deep_text n)" using assms(1) by (simp add: deep_length)
  qed (simp_all add: assms)
  also have "\<dots> = paren_loop (deep_text n) (12 * i + 7) (d + 1)"
    by (rule paren_open_to) (use assms in \<open>simp_all add: deep_length deep_chars\<close>)
  finally show ?thesis .
qed

lemma deep_skip_quoted:
  assumes "i < n"
  shows "skip_quoted (deep_text n) squote (12 * i + 8) = 12 * i + 9"
proof -
  have "skip_quoted (deep_text n) squote (12 * i + 8) =
      skip_quoted (deep_text n) squote (12 * i + 9)"
    by (rule skip_quoted_plain_to)
       (use assms in \<open>simp_all add: deep_length deep_chars squote_def backslash_def\<close>)
  also have "\<dots> = 12 * i + 9"
    by (rule skip_quoted_stop) (use assms in \<open>simp add: deep_chars\<close>)
  finally show ?thesis .
qed

lemma paren_tail:
  assumes "i < n" "d > 0"
  shows "paren_loop (deep_text n) (12 * i + 7) d = paren_loop (deep_text n) (12 * Suc i) d"
proof -
  have "paren_loop (deep_text n) (12 * i + 7) d = paren_loop (deep_text n) (12 * i + 10) d"
    by (rule paren_quote_to[where k = "12 * i + 8" and e = "12 * i + 9"])
       (use assms in \<open>simp_all add: deep_length deep_chars deep_skip_quoted\<close>)
  also have "\<dots> = paren_loop (deep_text n) (12 * i + 11) d"
    by (rule paren_other_to)
       (use assms in \<open>simp_all add: deep_length deep_chars squote_def dquote_def\<close>)
  also have "\<dots> = paren_loop (deep_text n) (12 * Suc i) d"
    by (rule paren_other_to)
       (use assms in \<open>simp_all add: deep_length deep_chars squote_def dquote_def\<close>)
  finally show ?thesis .
qed

lemma paren_units:
  assumes "i + k \<le> n" "d > 0"
  shows "paren_loop (deep_text n) (12 * i) d = paren_loop (deep_text n) (12 * (i + k)) (d + k)"
  using assms
proof (induction k)
  case 0
  show ?case by simp
next
  case (Suc k)
  then have "paren_loop (deep_text n) (12 * i) d =
      paren_loop (deep_text n) (12 * (i + k)) (d + k)" by simp
  also have "\<dots> = paren_loop (deep_text n) (12 * (i + k) + 7) (d + k + 1)"
    using Suc.prems by (intro paren_head) simp_all
  also have "\<dots> = paren_loop (deep_text n) (12 * Suc (i + k)) (d + k + 1)"
    using Suc.prems by (intro paren_tail) simp_all
  finally show ?case by simp
qed

lemma paren_closing:
  assumes "k + d \<le> n" "d > 0"
  shows "paren_loop (deep_text n) (12 * n + 2 * k) d = (12 * n + 2 * (k + d), 0)"
  using assms
proof (induction d arbitrary: k)
  case 0
  then show ?case by simp
next
  case (Suc d)
  then have k: "k < n" by simp
  have "paren_loop (deep_text n) (12 * n + 2 * k) (Suc d) =
      paren_loop (deep_text n) (12 * n + 2 * k + 1) (Suc d)"
    by (rule paren_other_to)
       (use k in \<open>simp_all add: deep_length deep_closing_chars squote_def dquote_def\<close>)
  also have "\<dots> = paren_loop (deep_text n) (12 * n + 2 * Suc k) d"
    by (rule paren_close_to)
       (use k in \<open>simp_all add: deep_length deep_closing_chars(2) del: One_nat_def add_Suc_right\<close>)
  also have "\<dots> = (12 * n + 2 * (k + Suc d), 0)"
  proof (cases "d = 0")
    case True
    then show ?thesis by (simp add: paren_loop_exit)
  next
    case False
    with Suc.IH[of "Suc k"] Suc.prems show ?thesis by simp
  qed
  finally show ?case .
qed

lemma deep_paren_from:
  assumes "i < n"
  shows "paren_from (deep_text n) (12 * i + 7) = Some (12 * n + 2 * (n - i) - 1)"
proof -
  have "paren_loop (deep_text n) (12 * i + 7) 1 = paren_loop (deep_text n) (12 * Suc i) 1"
    using assms by (intro paren_tail) simp_all
  also have "\<dots> = paren_loop (deep_text n) (12 * (Suc i + (n - Suc i))) (1 + (n - Suc i))"
    using assms by (intro paren_units) simp_all
  also have "\<dots> = paren_loop (deep_text n) (12 * n + 2 * 0) (n - i)"
  proof -
    from assms have "Suc i + (n - Suc i) = n" "1 + (n - Suc i) = n - i" by simp_all
    then show ?thesis by simp
  qed
  also have "\<dots> = (12 * n + 2 * (0 + (n - i)), 0)"
    using assms by (intro paren_closing) simp_all
  finally show ?thesis unfolding paren_from_def by simp
qed

lemma deep_letters:
  assumes "i < n" "r < 6"
  shows "deep_text n ! (12 * i + r) \<in> set ''layout''"
  using deep_open[OF assms(1), of r] layout_open_letters[OF assms(2)] assms(2) by simp

lemma deep_indexOf:
  assumes "i < n"
  shows "indexOf (deep_text n) (CHR ''('') (12 * i) = Some (12 * i + 6)"
proof -
  have "deep_text n ! m \<noteq> CHR ''(''" if m: "12 * i \<le> m" "m < 12 * i + 6" for m
  proof -
    define r where "r = m - 12 * i"
    with m have r: "m = 12 * i + r" "r < 6" by simp_all
    from deep_letters[OF assms r(2)] r(1) show ?thesis by auto
  qed
  with assms show ?thesis
    unfolding indexOf_Some by (simp add: deep_length deep_chars)
qed

lemma deep_extract:
  assumes "i < n"
  shows "extractStringArg (deep_text n) (12 * i + 7) = Some (''x'', 12 * i + 10)"
proof (rule extractStringArg_to[where i = "12 * i + 7" and k = "12 * i + 8" and j = "12 * i + 9"])
  show "skip_space_comma (deep_text n) (12 * i + 7) = 12 * i + 7"
    by (rule skip_space_comma_stop)
       (use assms in \<open>simp add: deep_chars is_space_def squote_def\<close>)
  have "read_quoted (deep_text n) squote (12 * i + 8) [] =
      read_quoted (deep_text n) squote (12 * i + 9) ''x''"
    by (rule read_quoted_plain_to)
       (use assms in \<open>simp_all add: deep_length deep_chars squote_def backslash_def\<close>)
  also have "\<dots> = (12 * i + 9, ''x'')"
    by (rule read_quoted_stop) (use assms in \<open>simp add: deep_chars\<close>)
  finally show "read_quoted (deep_text n) squote (12 * i + 8) [] = (12 * i + 9, ''x'')" .
qed (use assms in \<open>simp_all add: deep_length deep_chars\<close>)

lemma deep_children:
  assumes "i < n" "12 * i + 11 < close"
  shows "findChildrenArray (deep_text n) (12 * i + 10) close = Some (12 * i + 11)"
proof -
  have "children_loop (deep_text n) (12 * i + 10) close False =
      children_loop (deep_text n) (12 * i + 11) close True"
    by (rule children_comma_to)
       (use assms in \<open>simp_all add: char_at_def deep_length deep_chars\<close>)
  also have "\<dots> = Some (12 * i + 11)"
    by (rule children_loop_found)
       (use assms in \<open>simp_all add: char_at_def deep_length deep_chars\<close>)
  finally show ?thesis unfolding findChildrenArray_def .
qed

lemma deep_parse_call:
  assumes "i < n"
  shows "parse_call Layout (deep_text n) (12 * i) = Some (deep_token n i)"
  unfolding deep_token_def
proof (rule parse_call_layout_to[where k = "12 * i + 6" and a = "12 * i + 7"
      and v = "''x''" and fe = "12 * i + 10"])
  show "findChildrenArray (deep_text n) (12 * i + 10) (12 * n + 2 * (n - i) - 1) = Some (12 * i + 11)"
    using assms by (intro deep_children) simp_all
qed (use assms in \<open>simp_all add: deep_indexOf deep_paren_from deep_extract\<close>)

lemma deep_match:
  assumes "i < n"
  shows "match_at ''layout'' (deep_text n) (12 * i) = Some (12 * i + 7)"
proof (rule match_at_to[where j = "12 * i + 6"])
  show "12 * i = 0 \<or> \<not> is_word (deep_text n ! (12 * i - 1))"
  proof (cases i)
    case 0
    then show ?thesis by simp
  next
    case (Suc j)
    then have "12 * i - 1 = 12 * j + 11" "j < n" using assms by simp_all
    then show ?thesis by (simp add: deep_chars is_word_def)
  qed
  show "substring (deep_text n) (12 * i) (12 * i + length ''layout'') = ''layout''"
  proof (rule substring_eqI)
    fix m assume "m < length ''layout''"
    then have m: "m < 6" by simp
    then have "m = 0 \<or> m = 1 \<or> m = 2 \<or> m = 3 \<or> m = 4 \<or> m = 5" by arith
    then have "layout_open ! m = ''layout'' ! m" by (auto simp: layout_open_def)
    with deep_open[OF assms, of m] m show "deep_text n ! (12 * i + m) = ''layout'' ! m" by simp
  next
    show "12 * i + length ''layout'' \<le> length (deep_text n)"
      using assms by (simp add: deep_length)
  qed
qed (use assms in \<open>simp_all add: deep_length deep_chars\<close>)

lemma deep_char_cases:
  assumes "m < 14 * n"
  shows "(\<exists>i r. i < n \<and> r < 12 \<and> m = 12 * i + r \<and> deep_text n ! m = layout_open ! r) \<or>
         deep_text n ! m = CHR '']'' \<or> deep_text n ! m = CHR '')''"
proof (cases "m < 12 * n")
  case True
  define i r where "i = m div 12" and "r = m mod 12"
  then have "i < n" "r < 12" "m = 12 * i + r" using True by auto
  with deep_open[of i n r] show ?thesis by blast
next
  case False
  define k r where "k = (m - 12 * n) div 2" and "r = (m - 12 * n) mod 2"
  then have kr: "k < n" "r < 2" "m = 12 * n + 2 * k + r" using False assms by auto
  then have "r = 0 \<or> r = 1" by arith
  with deep_closing_chars[OF kr(1)] kr(3) show ?thesis by auto
qed

lemma first_letter:
  assumes "r < 12" "layout_open ! r = hd (keyword ty)"
  shows "ty = Layout \<and> r = 0"
proof -
  from assms(1) have "r = 0 \<or> r = 1 \<or> r = 2 \<or> r = 3 \<or> r = 4 \<or> r = 5 \<or> r = 6 \<or> r = 7 \<or>
      r = 8 \<or> r = 9 \<or> r = 10 \<or> r = 11" by arith
  with assms(2) show ?thesis by (cases ty) (auto simp: layout_open_def)
qed

lemma deep_occurrence:
  "occurrence ty (deep_text n) m \<longleftrightarrow> ty = Layout \<and> (\<exists>i. i < n \<and> m = 12 * i)"
proof
  assume occ: "occurrence ty (deep_text n) m"
  then have m: "m < 14 * n" unfolding occurrence_def by (simp add: deep_length)
  from occ obtain e where "match_at (keyword ty) (deep_text n) m = Some e"
    unfolding occurrence_def by auto
  from match_at_Some[OF this]
  have "substring (deep_text n) m (m + length (keyword ty)) = keyword ty" by simp
  from substring_nth[OF this, of 0] keyword_nonempty[of ty]
  have c: "deep_text n ! m = hd (keyword ty)" by (simp add: hd_conv_nth)
  have "hd (keyword ty) \<noteq> CHR '']'' \<and> hd (keyword ty) \<noteq> CHR '')''" by (cases ty) simp_all
  with deep_char_cases[OF m] c obtain i r where
    ir: "i < n" "r < 12" "m = 12 * i + r" "layout_open ! r = hd (keyword ty)"
    by auto
  from first_letter[OF ir(2) ir(4)] ir show "ty = Layout \<and> (\<exists>i. i < n \<and> m = 12 * i)" by auto
next
  assume "ty = Layout \<and> (\<exists>i. i < n \<and> m = 12 * i)"
  then obtain i where i: "ty = Layout" "i < n" "m = 12 * i" by blast
  with deep_match[OF i(2)] show "occurrence ty (deep_text n) m"
    unfolding occurrence_def by (simp add: deep_length)
qed

lemma sorted_multiples: "sorted (map (\<lambda>i. 12 * i) [0..<n])"
  by (induction n) (auto simp: sorted_append)

lemma deep_occurrences:
  "filter (occurrence ty (deep_text n)) [0..<length (deep_text n)] =
     (if ty = Layout then map (\<lambda>i. 12 * i) [0..<n] else [])"
proof (cases "ty = Layout")
  case False
  then show ?thesis by (simp add: deep_occurrence)
next
  case True
  have "filter (occurrence Layout (deep_text n)) [0..<14 * n] = map (\<lambda>i. 12 * i) [0..<n]"
  proof (rule sorted_distinct_set_unique)
    show "sorted (filter (occurrence Layout (deep_text n)) [0..<14 * n])"
      by (rule sorted_wrt_filter) simp
    show "distinct (filter (occurrence Layout (deep_text n)) [0..<14 * n])" by simp
    show "sorted (map (\<lambda>i. 12 * i) [0..<n])" by (rule sorted_multiples)
    show "distinct (map (\<lambda>i. 12 * i) [0..<n])" by (simp add: distinct_map inj_on_def)
    show "set (filter (occurrence Layout (deep_text n)) [0..<14 * n]) =
        set (map (\<lambda>i. 12 * i) [0..<n])"
      by (auto simp: deep_occurrence)
  qed
  with True show ?thesis by (simp add: deep_length)
qed

lemma deep_surviving:
  "m \<le> n \<Longrightarrow>
   List.map_filter (parse_call Layout (deep_text n)) (map (\<lambda>i. 12 * i) [0..<m]) =
     map (deep_token n) [0..<m]"
  by (induction m) (simp_all add: List.map_filter_def deep_parse_call)

lemma deep_tokens: "parseRouteTokens (deep_text n) = map (deep_token n) [0..<n]"
proof -
  have "concat (map (\<lambda>ty. surviving_tokens ty (deep_text n)) patterns) =
      map (deep_token n) [0..<n]"
    unfolding surviving_tokens_def patterns_def deep_occurrences
    by (simp add: deep_surviving)
  moreover have "sorted (map startIndex (map (deep_token n) [0..<n]))"
    using sorted_multiples[of n] by (simp add: comp_def deep_token_def)
  ultimately show ?thesis
    unfolding parseRouteTokens_list by (simp add: sort_key_id_if_sorted)
qed

lemma deep_contains:
  assumes "j < n" "k < n"
  shows "contains_node (deep_token n j) (deep_token n k) \<longleftrightarrow> j < k"
  using assms unfolding contains_node_def deep_token_def by auto

lemma deep_parent:
  assumes "k < n"
  shows "parent_of (map (deep_token n) [0..<n]) k = (if k = 0 then None else Some (k - 1))"
proof (cases k)
  case 0
  then show ?thesis by (simp add: parent_of_None)
next
  case (Suc j)
  have "parent_of (map (deep_token n) [0..<n]) k = Some j"
    unfolding parent_of_Some using assms Suc by (auto simp: deep_contains)
  with Suc show ?thesis by simp
qed

lemma deep_ancestors:
  "k < n \<Longrightarrow> length (ancestors (map (deep_token n) [0..<n]) k) = Suc k"
proof (induction k)
  case 0
  then show ?case by (simp add: ancestors_None deep_parent)
next
  case (Suc k)
  then have "parent_of (map (deep_token n) [0..<n]) (Suc k) = Some k"
    by (simp add: deep_parent)
  from ancestors_Some[OF this] Suc show ?case by simp
qed

lemma deep_raises: "parseRoutesFile_stack frames (deep_text (Suc frames)) = Inl RangeError"
proof -
  have "frames < length (parseRouteTokens (deep_text (Suc frames))) \<and>
      frames < length (ancestors (parseRouteTokens (deep_text (Suc frames))) frames)"
    unfolding deep_tokens using deep_ancestors[of frames "Suc frames"]
    by (simp del: upt_Suc)
  then show ?thesis unfolding parseRoutesFile_stack_raises by blast
qed

section \<open>The claims\<close>

text \<open>
  Claim C1. For the text
  \<open>prefix('dashboard', [ index('./d/home.tsx'), route('settings', './d/settings.tsx') ])\<close>
  the scanner finds three tokens, the prefix, the index and the route, and the parse gives
  exactly two records: the index with full path \<open>/dashboard\<close> and the route with full path
  \<open>/dashboard/settings\<close>. There is no record for the prefix.
\<close>

theorem dashboard_routes:
  "map type (parseRouteTokens dashboard_text) = [Prefix, Index, Route] \<and>
   map (\<lambda>r. (info_type r, fullPath r)) (parseRoutesFile dashboard_text) =
     [(Index, ''/dashboard''), (Route, ''/dashboard/settings'')]"
  by code_simp

text \<open>
  Claim C2, as the specification states it, asks for a parent whose span contains the
  node strictly. The source accepts a node that ends where the candidate ends
  (\<open>node.token.endIndex <= potentialParent.token.endIndex\<close>). In
  \<open>prefix('a', [ 'index(\'' ])\<close> the scan of the parentheses of \<open>index(\<close> starts inside
  the string, takes the escaped quote and the closing quote for a string and ends at the
  parenthesis of the prefix: the index token ends at offset 26, as the prefix does. The
  source makes the prefix its parent; with strict containment it would be a root.
\<close>

theorem strict_parent_counterexample:
  "map (\<lambda>t. (type t, startIndex t, endIndex t, childrenStartIndex t))
       (parseRouteTokens escaped_quote_text) =
     [(Prefix, 0, 26, Some 12), (Index, 15, 26, None)] \<and>
   parent_of (parseRouteTokens escaped_quote_text) 1 = Some 0 \<and>
   spec_parent (parseRouteTokens escaped_quote_text) 1 = None \<and>
   map fullPath (parseRoutesFile escaped_quote_text) = [''/a'']"
  by code_simp

text \<open>
  Claim C2, amended. A candidate \<open>p\<close> qualifies for a node \<open>n\<close> when \<open>p\<close> has a children
  array, \<open>n\<close> starts after the start of that array and \<open>n\<close> ends at or before the end of
  \<open>p\<close>. The parent of token \<open>i\<close> is the nearest token before it that qualifies: the
  \<open>j < i\<close> that qualifies with no qualifying token between \<open>j\<close> and \<open>i\<close>. A token has no
  parent exactly when no token before it qualifies; the roots are the tokens with no
  parent, and the children of a token are the tokens whose parent it is.
\<close>

theorem nearest_parent:
  "(contains_node p n \<longleftrightarrow>
      hasChildren p \<and>
      (\<exists>c. childrenStartIndex p = Some c \<and> c < startIndex n \<and> endIndex n \<le> endIndex p)) \<and>
   (parent_of tokens i = Some j \<longleftrightarrow>
      j < i \<and> contains_node (tokens ! j) (tokens ! i) \<and>
      (\<forall>k. j < k \<and> k < i \<longrightarrow> \<not> contains_node (tokens ! k) (tokens ! i))) \<and>
   (parent_of tokens i = None \<longleftrightarrow>
      (\<forall>j. j < i \<longrightarrow> \<not> contains_node (tokens ! j) (tokens ! i))) \<and>
   (i \<in> set (buildTree tokens) \<longleftrightarrow> i < length tokens \<and> parent_of tokens i = None) \<and>
   (i \<in> set (children_of tokens j) \<longleftrightarrow> i < length tokens \<and> parent_of tokens i = Some j)"
proof -
  have "contains_node p n \<longleftrightarrow>
      hasChildren p \<and>
      (\<exists>c. childrenStartIndex p = Some c \<and> c < startIndex n \<and> endIndex n \<le> endIndex p)"
    unfolding contains_node_def by (auto split: option.splits)
  moreover have "i \<in> set (buildTree tokens) \<longleftrightarrow> i < length tokens \<and> parent_of tokens i = None"
    unfolding buildTree_filter by auto
  moreover have "i \<in> set (children_of tokens j) \<longleftrightarrow>
      i < length tokens \<and> parent_of tokens i = Some j"
    unfolding children_of_filter by auto
  ultimately show ?thesis
    using parent_of_Some[of tokens i j] parent_of_None[of tokens i] by blast
qed

theorem nearest_parent_witness:
  "parent_of (parseRouteTokens dashboard_text) 2 = Some 0 \<and>
   parent_of (parseRouteTokens dashboard_text) 0 = None \<and>
   0 \<in> set (buildTree (parseRouteTokens dashboard_text)) \<and>
   2 \<in> set (children_of (parseRouteTokens dashboard_text) 0)"
proof -
  define ts where "ts = parseRouteTokens dashboard_text"
  have c0: "contains_node (ts ! 0) (ts ! 2)" unfolding ts_def by code_simp
  have c1: "\<not> contains_node (ts ! 1) (ts ! 2)" unfolding ts_def by code_simp
  have len: "0 < length ts" "2 < length ts" unfolding ts_def by code_simp+
  have "\<forall>k. 0 < k \<and> k < 2 \<longrightarrow> \<not> contains_node (ts ! k) (ts ! 2)"
  proof (intro allI impI)
    fix k :: nat assume "0 < k \<and> k < 2"
    then have "k = 1" by simp
    with c1 show "\<not> contains_node (ts ! k) (ts ! 2)" by simp
  qed
  with c0 have p2: "parent_of ts 2 = Some 0"
    using nearest_parent[of "ts ! 0" "ts ! 2" ts 2 0] by simp
  with len have "2 \<in> set (children_of ts 0)"
    using nearest_parent[of "ts ! 0" "ts ! 2" ts 2 0] by simp
  moreover note p2
  moreover have "parent_of ts 0 = None"
    using nearest_parent[of "ts ! 0" "ts ! 0" ts 0 0] by simp
  moreover from this len have "0 \<in> set (buildTree ts)"
    using nearest_parent[of "ts ! 0" "ts ! 0" ts 0 0] by simp
  ultimately show ?thesis unfolding ts_def by simp
qed

text \<open>
  Claim C3, as the specification states it, collects the declared segment of every node
  of the chain that is no layout. The source leaves out the empty segments as well
  (\<open>current.token.path\<close> is false for the empty string). In
  \<open>prefix('a', [ route('', './x.tsx') ])\<close> the segments of the route are \<open>a\<close> and the
  empty string: joined they are \<open>a/\<close> and give \<open>/a/\<close>, where the source gives \<open>/a\<close>.
\<close>

theorem empty_segment_counterexample:
  "map (\<lambda>t. (type t, path t)) (parseRouteTokens empty_segment_text) = [(Prefix, ''a''), (Route, [])] \<and>
   ancestors (parseRouteTokens empty_segment_text) 1 = [0, 1] \<and>
   calculateFullPath (parseRouteTokens empty_segment_text) 1 = ''/a'' \<and>
   spec_fullPath (parseRouteTokens empty_segment_text) 1 = ''/a/'' \<and>
   map fullPath (parseRoutesFile empty_segment_text) = [''/a'']"
  by code_simp

text \<open>
  Claim C3, amended. The full path of a node is: the declared segments of the nodes from
  the root to the node that are no layout and whose segment is not empty, joined with a
  slash, runs of slashes collapsed to one, the slashes at the start stripped, and one
  slash put in front. Every record of the parse carries this path of its node. For
  \<open>layout('./layout.tsx', [ route('x', './x.tsx') ])\<close> the full path of the child is
  \<open>/x\<close>.
\<close>

theorem fullPath_segments:
  "calculateFullPath tokens node =
     CHR ''/'' # strip_leading_slashes (collapse_slashes (join_slash (segments tokens node))) \<and>
   (\<forall>r \<in> set (parseRoutesFile text).
      \<exists>n. n < length (parseRouteTokens text) \<and>
          info_type r = type (parseRouteTokens text ! n) \<and>
          fullPath r = CHR ''/'' # strip_leading_slashes (collapse_slashes (join_slash
                         (segments (parseRouteTokens text) n)))) \<and>
   map (\<lambda>r. (info_type r, fullPath r)) (parseRoutesFile layout_text) =
     [(Layout, ''/''), (Route, ''/x'')]"
proof -
  have full: "calculateFullPath ts n =
     CHR ''/'' # strip_leading_slashes (collapse_slashes (join_slash (segments ts n)))" for ts n
    unfolding calculateFullPath_def by (simp add: path_parts_segments Let_def)
  have "\<exists>n. n < length (parseRouteTokens text) \<and>
          info_type r = type (parseRouteTokens text ! n) \<and>
          fullPath r = CHR ''/'' # strip_leading_slashes (collapse_slashes (join_slash
                         (segments (parseRouteTokens text) n)))"
    if "r \<in> set (parseRoutesFile text)" for r
  proof -
    from parseRoutesFile_nodes[OF that] obtain n where n: "n < length (parseRouteTokens text)"
      "r = route_info text (parseRouteTokens text) n" by blast
    have "info_type r = type (parseRouteTokens text ! n)"
      using n(2) unfolding route_info_def by (simp add: Let_def)
    moreover have "fullPath r = calculateFullPath (parseRouteTokens text) n"
      using n(2) by (simp add: route_info_fullPath)
    ultimately show ?thesis using n(1) full by auto
  qed
  moreover have "map (\<lambda>r. (info_type r, fullPath r)) (parseRoutesFile layout_text) =
     [(Layout, ''/''), (Route, ''/x'')]"
    by code_simp
  ultimately show ?thesis using full by blast
qed

theorem fullPath_segments_witness:
  "parseRoutesFile layout_text \<noteq> [] \<and>
   (\<exists>n. n < length (parseRouteTokens layout_text) \<and>
        fullPath (last (parseRoutesFile layout_text)) =
          CHR ''/'' # strip_leading_slashes (collapse_slashes (join_slash
            (segments (parseRouteTokens layout_text) n))))"
proof -
  have ne: "parseRoutesFile layout_text \<noteq> []" by code_simp
  then have "last (parseRoutesFile layout_text) \<in> set (parseRoutesFile layout_text)" by simp
  with ne show ?thesis
    using fullPath_segments[of "parseRouteTokens layout_text" 0 layout_text] by blast
qed

text \<open>
  Claim C4. \<open>findMatchingParen\<close> computes the matching parenthesis of the specification:
  the scan with a depth counter that consumes quoted runs, with their backslash escapes,
  and finds nothing when the text ends first. A result is the offset of a closing
  parenthesis after the opening one. What stands before a construct has no effect on its
  match. In \<open>route('a(b', './f.tsx'), route('c', './c.tsx', [ index('./i.tsx') ])\<close> the
  first route ends at offset 22, and the spans of the constructs after it are right.
\<close>

theorem matching_paren:
  "findMatchingParen text openIndex = spec_matching_paren text openIndex \<and>
   (findMatchingParen text openIndex = Some closeIndex \<longrightarrow>
      openIndex < closeIndex \<and> closeIndex < length text \<and> text ! closeIndex = CHR '')'') \<and>
   findMatchingParen (before @ text) (length before + openIndex) =
     map_option (\<lambda>c. length before + c) (findMatchingParen text openIndex) \<and>
   map (\<lambda>t. (type t, path t, startIndex t, endIndex t)) (parseRouteTokens quoted_paren_text) =
     [(Route, ''a(b'', 0, 22), (Route, ''c'', 25, 67), (Index, [], 49, 64)]"
proof -
  have "findMatchingParen (before @ text) (length before + openIndex) =
     map_option (\<lambda>c. length before + c) (findMatchingParen text openIndex)"
  proof -
    have "drop (length before + openIndex + 1) (before @ text) = drop (openIndex + 1) text"
      by simp
    then show ?thesis
      unfolding findMatchingParen_spec spec_matching_paren_def
      by (cases "spec_scan (drop (openIndex + 1) text) 1") simp_all
  qed
  moreover have "map (\<lambda>t. (type t, path t, startIndex t, endIndex t))
      (parseRouteTokens quoted_paren_text) =
     [(Route, ''a(b'', 0, 22), (Route, ''c'', 25, 67), (Index, [], 49, 64)]"
    by code_simp
  ultimately show ?thesis
    using findMatchingParen_spec findMatchingParen_Some by blast
qed

theorem matching_paren_witness:
  "findMatchingParen quoted_paren_text 5 = Some 22 \<and> 22 < length quoted_paren_text \<and>
   quoted_paren_text ! 22 = CHR '')'' \<and> spec_matching_paren quoted_paren_text 5 = Some 22"
proof -
  have "findMatchingParen quoted_paren_text 5 = Some 22" by code_simp
  then show ?thesis
    using matching_paren[of quoted_paren_text 5 22] by simp
qed




text \<open>
  Claim C6. For the text \<open>index('./home.tsx')\<close> the parse gives exactly one record, with
  full path \<open>/\<close>. A node whose chain has only layouts and nodes with an empty segment has
  the full path \<open>/\<close>.
\<close>

theorem index_root_path:
  "map (\<lambda>r. (info_type r, fullPath r)) (parseRoutesFile home_text) = [(Index, ''/'')] \<and>
   ((\<forall>a \<in> set (ancestors tokens node). type (tokens ! a) = Layout \<or> path (tokens ! a) = [])
      \<longrightarrow> calculateFullPath tokens node = ''/'')"
proof -
  have "map (\<lambda>r. (info_type r, fullPath r)) (parseRoutesFile home_text) = [(Index, ''/'')]"
    by code_simp
  moreover have "calculateFullPath tokens node = ''/''"
    if "\<forall>a \<in> set (ancestors tokens node). type (tokens ! a) = Layout \<or> path (tokens ! a) = []"
  proof -
    from that have "filter (\<lambda>t. type t \<noteq> Layout \<and> path t \<noteq> []) (map ((!) tokens) (ancestors tokens node)) = []"
      by (auto simp: filter_empty_conv)
    then have "segments tokens node = []" unfolding segments_def by simp
    then show ?thesis
      unfolding calculateFullPath_def strip_leading_slashes_def
      by (simp add: path_parts_segments Let_def)
  qed
  ultimately show ?thesis by blast
qed

theorem index_root_path_witness:
  "ancestors (parseRouteTokens layout_text) 0 = [0] \<and>
   type (parseRouteTokens layout_text ! 0) = Layout \<and>
   calculateFullPath (parseRouteTokens layout_text) 0 = ''/''"
proof -
  have a: "ancestors (parseRouteTokens layout_text) 0 = [0]" by code_simp
  have t: "type (parseRouteTokens layout_text ! 0) = Layout" by code_simp
  from a t have "\<forall>a \<in> set (ancestors (parseRouteTokens layout_text) 0).
      type (parseRouteTokens layout_text ! a) = Layout \<or> path (parseRouteTokens layout_text ! a) = []"
    by simp
  then have "calculateFullPath (parseRouteTokens layout_text) 0 = ''/''"
    using index_root_path[of "parseRouteTokens layout_text" 0] by blast
  with a t show ?thesis by simp
qed

text \<open>
  Claim C7. For every text, the full path of every record of the parse starts with a slash
  and has no two slashes in a row.
\<close>

theorem fullPath_normal:
  "\<forall>r \<in> set (parseRoutesFile text).
     (\<exists>rest. fullPath r = CHR ''/'' # rest) \<and> \<not> (\<exists>u v. fullPath r = u @ ''//'' @ v)"
proof
  fix r assume "r \<in> set (parseRoutesFile text)"
  then obtain n where "fullPath r = calculateFullPath (parseRouteTokens text) n"
    using parseRoutesFile_nodes route_info_fullPath by blast
  then show "(\<exists>rest. fullPath r = CHR ''/'' # rest) \<and> \<not> (\<exists>u v. fullPath r = u @ ''//'' @ v)"
    using calculateFullPath_shape[of "parseRouteTokens text" n] has_double_slash_iff by auto
qed

theorem fullPath_normal_witness:
  "parseRoutesFile dashboard_text \<noteq> [] \<and>
   (\<exists>rest. fullPath (hd (parseRoutesFile dashboard_text)) = CHR ''/'' # rest) \<and>
   \<not> (\<exists>u v. fullPath (hd (parseRoutesFile dashboard_text)) = u @ ''//'' @ v)"
proof -
  have ne: "parseRoutesFile dashboard_text \<noteq> []" by code_simp
  then have "hd (parseRoutesFile dashboard_text) \<in> set (parseRoutesFile dashboard_text)"
    by simp
  with ne show ?thesis using fullPath_normal[of dashboard_text] by blast
qed

text \<open>
  Claim C8, as the specification states it, says that the parse never raises on any input
  text. \<open>traverse\<close> needs one activation on the call stack for every level of nesting, so
  a text nested deeper than the stack has room for raises a \<open>RangeError\<close>. The text
  \<open>prefix('a', [ layout('./l.tsx', [ index('./i.tsx') ]) ])\<close> has three tokens, each the
  only child of the one before; on a stack with room for two activations the visit of
  the index raises. No size of the stack is enough for every text: 12001 layouts, each
  in the array of the one before, raise on a stack with room for 12000 activations.
\<close>

theorem deep_nesting_counterexample:
  "map (\<lambda>t. (type t, startIndex t, endIndex t)) (parseRouteTokens nested_text) =
     [(Prefix, 0, 55), (Layout, 14, 52), (Index, 34, 49)] \<and>
   buildTree (parseRouteTokens nested_text) = [0] \<and>
   children_of (parseRouteTokens nested_text) 0 = [1] \<and>
   children_of (parseRouteTokens nested_text) 1 = [2] \<and>
   parseRoutesFile_stack 2 nested_text = Inl RangeError \<and>
   parseRoutesFile_stack 12000 (deep_text 12001) = Inl RangeError"
proof -
  have small: "map (\<lambda>t. (type t, startIndex t, endIndex t)) (parseRouteTokens nested_text) =
       [(Prefix, 0, 55), (Layout, 14, 52), (Index, 34, 49)] \<and>
     buildTree (parseRouteTokens nested_text) = [0] \<and>
     children_of (parseRouteTokens nested_text) 0 = [1] \<and>
     children_of (parseRouteTokens nested_text) 1 = [2] \<and>
     parseRoutesFile_stack 2 nested_text = Inl RangeError"
    by code_simp
  have "Suc 12000 = 12001" by simp
  with deep_raises[of 12000]
  have "parseRoutesFile_stack 12000 (deep_text 12001) = Inl RangeError" by simp
  with small show ?thesis by (intro conjI) simp_all
qed

text \<open>
  Claim C8, amended. The parse ends on every text, and it raises in one case only: when
  a token of the stream has a chain from its root that is longer than the number of
  activations of \<open>traverse\<close> the stack has room for, the result is a \<open>RangeError\<close>; in
  every other case it is the route list of \<open>parseRoutesFile\<close>. Whatever the size of the
  stack, there is a text that raises: layouts nested one level deeper than the stack has
  room for. For every occurrence of a construct the parenthesis of the pattern is found,
  and the occurrence is dropped exactly when its parenthesis has no match or, for a route
  or a prefix, the first string argument is missing. A string argument without an end,
  the first or the second, leaves the parenthesis without a match, so the occurrence is
  dropped. The token stream holds exactly the tokens of the other occurrences of the
  text, sorted by their start. The route list holds exactly one record for every token of
  the stream that is no prefix, so it is empty when no such token is left. Every record
  has a line and a column that are not negative.
\<close>

theorem parse_outcome:
  "(\<forall>ty m. occurrence ty text m \<longrightarrow>
      (\<exists>k. indexOf text (CHR ''('') m = Some k \<and>
           (parse_call ty text m = None \<longleftrightarrow>
              findMatchingParen text k = None \<or>
              (hasPath ty \<and> extractStringArg text (k + 1) = None)) \<and>
           (unterminated text (k + 1) \<longrightarrow> parse_call ty text m = None) \<and>
           (\<forall>v e. extractStringArg text (k + 1) = Some (v, e) \<and> unterminated text e
                  \<longrightarrow> parse_call ty text m = None))) \<and>
   parseRouteTokens text =
     sort_key startIndex (concat (map (\<lambda>ty. surviving_tokens ty text) patterns)) \<and>
   set (parseRouteTokens text) =
     {tok. \<exists>ty m. occurrence ty text m \<and> parse_call ty text m = Some tok} \<and>
   sorted (map startIndex (parseRouteTokens text)) \<and>
   parseRoutesFile_stack frames text =
     (if \<exists>k. k < length (parseRouteTokens text) \<and>
             frames < length (ancestors (parseRouteTokens text) k)
      then Inl RangeError else Inr (parseRoutesFile text)) \<and>
   parseRoutesFile_stack frames (deep_text (Suc frames)) = Inl RangeError \<and>
   (\<exists>ns. distinct ns \<and>
         set ns = {n. n < length (parseRouteTokens text) \<and>
                      type (parseRouteTokens text ! n) \<noteq> Prefix} \<and>
         parseRoutesFile text = map (route_info text (parseRouteTokens text)) ns) \<and>
   (\<forall>r \<in> set (parseRoutesFile text). 0 \<le> line r \<and> 0 \<le> startCharacter (range r))"
proof -
  have "\<exists>k. indexOf text (CHR ''('') m = Some k \<and>
           (parse_call ty text m = None \<longleftrightarrow>
              findMatchingParen text k = None \<or>
              (hasPath ty \<and> extractStringArg text (k + 1) = None)) \<and>
           (unterminated text (k + 1) \<longrightarrow> parse_call ty text m = None) \<and>
           (\<forall>v e. extractStringArg text (k + 1) = Some (v, e) \<and> unterminated text e
                  \<longrightarrow> parse_call ty text m = None)"
    if occ: "occurrence ty text m" for ty m
  proof -
    from occurrence_open[OF occ] obtain k where k: "indexOf text (CHR ''('') m = Some k" by blast
    note n = parse_call_None[OF k, of ty]
    have "parse_call ty text m = None" if "unterminated text (k + 1)"
      using unterminated_paren_from[OF that] n unfolding findMatchingParen_def by simp
    moreover have "parse_call ty text m = None"
      if "extractStringArg text (k + 1) = Some (v, e) \<and> unterminated text e" for v e
      using second_unterminated_paren_from[of "text" "k + 1" v e] that n
      unfolding findMatchingParen_def by simp
    ultimately have "(unterminated text (k + 1) \<longrightarrow> parse_call ty text m = None) \<and>
           (\<forall>v e. extractStringArg text (k + 1) = Some (v, e) \<and> unterminated text e
                  \<longrightarrow> parse_call ty text m = None)"
      by blast
    with k n show ?thesis by (intro exI[of _ k]) simp
  qed
  then have drops: "\<forall>ty m. occurrence ty text m \<longrightarrow>
      (\<exists>k. indexOf text (CHR ''('') m = Some k \<and>
           (parse_call ty text m = None \<longleftrightarrow>
              findMatchingParen text k = None \<or>
              (hasPath ty \<and> extractStringArg text (k + 1) = None)) \<and>
           (unterminated text (k + 1) \<longrightarrow> parse_call ty text m = None) \<and>
           (\<forall>v e. extractStringArg text (k + 1) = Some (v, e) \<and> unterminated text e
                  \<longrightarrow> parse_call ty text m = None))"
    by blast
  have srt: "sorted (map startIndex (parseRouteTokens text))"
    unfolding parseRouteTokens_def by simp
  have pos: "\<forall>r \<in> set (parseRoutesFile text). 0 \<le> line r \<and> 0 \<le> startCharacter (range r)"
    using record_position by blast
  have stack: "parseRoutesFile_stack frames text =
     (if \<exists>k. k < length (parseRouteTokens text) \<and>
             frames < length (ancestors (parseRouteTokens text) k)
      then Inl RangeError else Inr (parseRoutesFile text))"
    using parseRoutesFile_stack_raises[of frames "text"]
      parseRoutesFile_stack_result[of frames "text"] by auto
  from drops parseRouteTokens_list[of "text"] parseRouteTokens_set[of "text"] srt stack
    deep_raises[of frames] parseRoutesFile_records[of "text"] pos
  show ?thesis by (intro conjI)
qed

theorem parse_outcome_witness:
  "map (\<lambda>t. (type t, startIndex t)) (parseRouteTokens malformed_text) =
     [(Route, 0), (Index, 33)] \<and>
   occurrence Route malformed_text 23 \<and> parse_call Route malformed_text 23 = None \<and>
   occurrence Layout malformed_text 51 \<and> unterminated malformed_text 58 \<and>
   parse_call Layout malformed_text 51 = None \<and>
   occurrence Route unterminated_file_text 0 \<and>
   extractStringArg unterminated_file_text 6 = Some (''b'', 9) \<and>
   unterminated unterminated_file_text 9 \<and>
   parse_call Route unterminated_file_text 0 = None \<and>
   length (ancestors (parseRouteTokens nested_text) 2) = 3 \<and>
   parseRoutesFile_stack 2 nested_text = Inl RangeError \<and>
   parseRoutesFile_stack 3 nested_text = Inr (parseRoutesFile nested_text) \<and>
   map (\<lambda>t. (type t, startIndex t, endIndex t)) (parseRouteTokens (deep_text 2)) =
     [(Layout, 0, 27), (Layout, 12, 25)] \<and>
   parseRoutesFile_stack 1 (deep_text 2) = Inl RangeError \<and>
   0 \<le> startCharacter (range (hd (parseRoutesFile malformed_text)))"
proof -
  have toks: "map (\<lambda>t. (type t, startIndex t)) (parseRouteTokens malformed_text) =
     [(Route, 0), (Index, 33)]" by code_simp
  have o1: "occurrence Route malformed_text 23" by code_simp
  have o2: "occurrence Layout malformed_text 51" by code_simp
  have o3: "occurrence Route unterminated_file_text 0" by code_simp
  have i1: "indexOf malformed_text (CHR ''('') 23 = Some 28" by code_simp
  have i2: "indexOf malformed_text (CHR ''('') 51 = Some 57" by code_simp
  have i3: "indexOf unterminated_file_text (CHR ''('') 0 = Some 5" by code_simp
  have e1: "hasPath Route \<and> extractStringArg malformed_text (28 + 1) = None" by code_simp
  have e2: "unterminated malformed_text (57 + 1)" by code_simp
  have e3: "extractStringArg unterminated_file_text (5 + 1) = Some (''b'', 9)" by code_simp
  have e4: "unterminated unterminated_file_text 9" by code_simp
  from o1 i1 e1 have d1: "parse_call Route malformed_text 23 = None"
    using parse_outcome[of malformed_text] by fastforce
  from o2 i2 e2 have d2: "parse_call Layout malformed_text 51 = None"
    using parse_outcome[of malformed_text] by fastforce
  from o3 i3 e3 e4 have d3: "parse_call Route unterminated_file_text 0 = None"
    using parse_outcome[of unterminated_file_text] by fastforce
  have deep: "2 < length (parseRouteTokens nested_text)"
    "length (ancestors (parseRouteTokens nested_text) 2) = 3" by code_simp+
  then have "\<exists>k. k < length (parseRouteTokens nested_text) \<and>
      2 < length (ancestors (parseRouteTokens nested_text) k)"
    by (intro exI[of _ 2]) simp
  then have r2: "parseRoutesFile_stack 2 nested_text = Inl RangeError"
    using parse_outcome[of nested_text 2] by simp
  have "parseRoutesFile_stack 3 nested_text \<noteq> Inl RangeError" by code_simp
  then have r3: "parseRoutesFile_stack 3 nested_text = Inr (parseRoutesFile nested_text)"
    using parse_outcome[of nested_text 3] by (auto split: if_splits)
  have dt: "map (\<lambda>t. (type t, startIndex t, endIndex t)) (parseRouteTokens (deep_text 2)) =
     [(Layout, 0, 27), (Layout, 12, 25)]" by code_simp
  from parse_outcome[of nested_text 1]
  have "parseRoutesFile_stack 1 (deep_text (Suc 1)) = Inl RangeError" by (elim conjE)
  then have r1: "parseRoutesFile_stack 1 (deep_text 2) = Inl RangeError"
    unfolding Suc_1 .
  have ne: "parseRoutesFile malformed_text \<noteq> []" by code_simp
  then have "hd (parseRoutesFile malformed_text) \<in> set (parseRoutesFile malformed_text)" by simp
  then have "0 \<le> startCharacter (range (hd (parseRoutesFile malformed_text)))"
    using parse_outcome[of malformed_text] by blast
  with toks o1 o2 o3 e2 e3 e4 d1 d2 d3 deep r2 r3 dt r1 show ?thesis by simp
qed

text \<open>
  Claim C9. The parse is a function of the text. The only object of the source whose state
  outlives a step is the \<open>lastIndex\<close> of a regular expression: every scanning loop leaves
  it at 0, the value of a new regular expression, so a parse whose loops start from what
  the loops of an earlier parse of the text left gives the token stream of
  \<open>parseRouteTokens\<close>, and with it the same route list.
\<close>

theorem parse_deterministic:
  "snd (scan_loop ty text lastIndex tokens) = 0 \<and>
   parseRouteTokens text =
     sort_key startIndex
       (fold (\<lambda>ty toks. fst (scan_loop ty text (snd (scan_loop ty text 0 previous)) toks))
          patterns []) \<and>
   parseRoutesFile text =
     (let again = sort_key startIndex
            (fold (\<lambda>ty toks. fst (scan_loop ty text (snd (scan_loop ty text 0 previous)) toks))
               patterns [])
      in concat (map (traverse text again) (buildTree again)))"
  unfolding parseRoutesFile_def parseRouteTokens_def by (simp add: scan_loop_lastIndex)

text \<open>
  Claim C10. Every token of the stream that has \<open>hasChildren\<close> set has a
  \<open>childrenStartIndex\<close>, and it lies strictly between the start and the end of the token.
\<close>

theorem children_start_inside:
  "\<forall>t \<in> set (parseRouteTokens text).
     hasChildren t \<longrightarrow>
     (\<exists>c. childrenStartIndex t = Some c \<and> startIndex t < c \<and> c < endIndex t)"
  using token_children_inside by blast

theorem children_start_inside_witness:
  "hasChildren (hd (parseRouteTokens dashboard_text)) \<and>
   childrenStartIndex (hd (parseRouteTokens dashboard_text)) = Some 20 \<and>
   startIndex (hd (parseRouteTokens dashboard_text)) < 20 \<and>
   20 < endIndex (hd (parseRouteTokens dashboard_text))"
proof -
  have ne: "parseRouteTokens dashboard_text \<noteq> []" by code_simp
  have h: "hasChildren (hd (parseRouteTokens dashboard_text))" by code_simp
  have c: "childrenStartIndex (hd (parseRouteTokens dashboard_text)) = Some 20" by code_simp
  from ne have "hd (parseRouteTokens dashboard_text) \<in> set (parseRouteTokens dashboard_text)"
    by simp
  with h c show ?thesis using children_start_inside[of dashboard_text] by auto
qed

end
